theory Spec2Isabelle
  imports Complex_Main "HOL-Library.AList"
begin

section \<open>Data model\<close>

subsection \<open>Python exceptions\<close>

text \<open>
  Every exception the modelled code can raise is a value.  A function that can
  raise returns a sum: \<open>Inl\<close> carries the exception, \<open>Inr\<close> the result.
\<close>

datatype error =
    AttributeError
  | TypeError
  | ValueError
  | OverflowError
  | KeyError
  | IndexError
  | InvalidOperation
  | DivisionByZero

subsection \<open>Calendar dates\<close>

text \<open>
  A \<^verbatim>\<open>datetime.date\<close>: year, month and day, compared as Python compares them
  (by year, then month, then day).
\<close>

datatype date = Date (year: int) (month: int) (day: int)

instantiation date :: linorder
begin

definition less_date :: "date \<Rightarrow> date \<Rightarrow> bool" where
  "less_date a b \<longleftrightarrow>
     year a < year b \<or>
     (year a = year b \<and> (month a < month b \<or> (month a = month b \<and> day a < day b)))"

definition less_eq_date :: "date \<Rightarrow> date \<Rightarrow> bool" where
  "less_eq_date a b \<longleftrightarrow> a < b \<or> a = b"

instance
proof
  fix x y z :: date
  show "(x < y) = (x \<le> y \<and> \<not> y \<le> x)"
    by (cases x; cases y) (auto simp: less_date_def less_eq_date_def)
  show "x \<le> x"
    by (simp add: less_eq_date_def)
  show "x \<le> y \<Longrightarrow> y \<le> z \<Longrightarrow> x \<le> z"
    by (cases x; cases y; cases z) (auto simp: less_date_def less_eq_date_def)
  show "x \<le> y \<Longrightarrow> y \<le> x \<Longrightarrow> x = y"
    by (cases x; cases y) (auto simp: less_date_def less_eq_date_def)
  show "x \<le> y \<or> y \<le> x"
    by (cases x; cases y) (auto simp: less_date_def less_eq_date_def)
qed

end

text \<open>
  The dates \<^verbatim>\<open>datetime.date\<close> accepts: years 1 to 9999, months 1 to 12 and a day
  that exists in the month.
\<close>

definition is_leap :: "int \<Rightarrow> bool" where
  "is_leap y \<longleftrightarrow> y mod 4 = 0 \<and> (y mod 100 \<noteq> 0 \<or> y mod 400 = 0)"

definition days_in_month :: "int \<Rightarrow> int \<Rightarrow> int" where
  "days_in_month y m =
     (if m = 2 then (if is_leap y then 29 else 28)
      else if m = 4 \<or> m = 6 \<or> m = 9 \<or> m = 11 then 30 else 31)"

definition valid_date :: "date \<Rightarrow> bool" where
  "valid_date d \<longleftrightarrow>
     1 \<le> year d \<and> year d \<le> 9999 \<and> 1 \<le> month d \<and> month d \<le> 12 \<and>
     1 \<le> day d \<and> day d \<le> days_in_month (year d) (month d)"

subsection \<open>Decimal numbers\<close>

text \<open>
  A finite \<^verbatim>\<open>decimal.Decimal\<close>: the number \<open>coefficient * 10 ^ exponent\<close>.  The
  coefficient carries the sign.  NaN, the infinities and the negative zero are
  not represented.
\<close>

datatype decimal = Dec (coefficient: int) (exponent: int)

subsection \<open>Cells and sheets\<close>

text \<open>
  Modelled from the spec: the Sheet Abstraction (sections 2 and 3), which stands
  for the worksheet of the spreadsheet library and is not part of the
  repository.  A sheet is a grid addressed by 1-based (row, column) that holds
  scalar values: null, an integer, a decimal, a text (the header labels) or a
  date.  It reports its current maximum row and column, which start at 1 on an
  empty sheet and grow to cover every cell that has been assigned; assigning
  null does not shrink them.  A date cell reads back as a value whose
  \<^verbatim>\<open>.date()\<close> is the stored date.
\<close>

datatype cell = VNone | VInt int | VDec decimal | VStr string | VDate date

record sheet =
  cells :: "nat \<times> nat \<Rightarrow> cell"
  max_row :: nat
  max_column :: nat

definition new_sheet :: sheet where
  "new_sheet = \<lparr>cells = (\<lambda>_. VNone), max_row = 1, max_column = 1\<rparr>"

text \<open>\<^verbatim>\<open>worksheet.cell(row, column).value = v\<close>\<close>

definition set_cell :: "sheet \<Rightarrow> nat \<Rightarrow> nat \<Rightarrow> cell \<Rightarrow> sheet" where
  "set_cell ws r c v =
     ws\<lparr>cells := (cells ws)((r, c) := v),
        max_row := max (max_row ws) r,
        max_column := max (max_column ws) c\<rparr>"

text \<open>
  Every cell outside the reported dimensions is empty: the invariant of a sheet
  that \<open>new_sheet\<close> satisfies and \<open>set_cell\<close> keeps.
\<close>

definition wf_sheet :: "sheet \<Rightarrow> bool" where
  "wf_sheet ws \<longleftrightarrow>
     1 \<le> max_row ws \<and> 1 \<le> max_column ws \<and>
     (\<forall>r c. max_row ws < r \<or> max_column ws < c \<longrightarrow> cells ws (r, c) = VNone)"

text \<open>
  \<^verbatim>\<open>cell.value.date()\<close>: only a date value has the method; on anything else the
  attribute lookup raises.
\<close>

fun cell_date :: "cell \<Rightarrow> error + date" where
  "cell_date (VDate d) = Inr d"
| "cell_date _ = Inl AttributeError"

text \<open>
  \<^verbatim>\<open>datetime.date(year, month, 1)\<close> on two cell values: the arguments are
  converted from left to right, each must be an integer (TypeError) that fits a
  C int (OverflowError), and together they must form a date (ValueError).
\<close>

definition c_int_range :: "int \<Rightarrow> bool" where
  "c_int_range i \<longleftrightarrow> - (2 ^ 31) \<le> i \<and> i < 2 ^ 31"

fun date_of_cells :: "cell \<Rightarrow> cell \<Rightarrow> error + date" where
  "date_of_cells (VInt y) (VInt m) =
     (if \<not> c_int_range y \<or> \<not> c_int_range m then Inl OverflowError
      else if y < 1 \<or> 9999 < y then Inl ValueError
      else if m < 1 \<or> 12 < m then Inl ValueError
      else Inr (Date y m 1))"
| "date_of_cells (VInt y) _ = (if \<not> c_int_range y then Inl OverflowError else Inl TypeError)"
| "date_of_cells _ _ = Inl TypeError"

subsection \<open>Records to write\<close>

text \<open>
  Modelled from the spec: IndicatorRecord and RecordSet (section 3), declared in
  the module \<^verbatim>\<open>bcb_api\<close>.  A record has a date, a decimal value and an optional
  end date; a RecordSet is an ordered sequence of records.
\<close>

record indicator_record =
  date :: date
  "value" :: decimal
  end_date :: "date option"

section \<open>Row locator\<close>

text \<open>
  \<^verbatim>\<open>WorksheetWriter._get_first_row\<close>:
  \<^verbatim>\<open>
    for row in range(self._worksheet.max_row, 1, -1):
        date_on_cell = self._worksheet.cell(row, column).value.date()
        if date_on_cell == first_date:
            return row
        elif date_on_cell < first_date:
            return row + 1
    else:
        return 1
  \<close>
  The second argument of \<open>scan_first_row\<close> is the row the loop is at; the rows
  below 2 are not visited.
\<close>

fun scan_first_row :: "sheet \<Rightarrow> date \<Rightarrow> nat \<Rightarrow> error + nat" where
  "scan_first_row ws first_date 0 = Inr 1"
| "scan_first_row ws first_date (Suc n) =
     (if Suc n < 2 then Inr 1
      else case cell_date (cells ws (Suc n, 1)) of
        Inl e \<Rightarrow> Inl e
      | Inr date_on_cell \<Rightarrow>
          if date_on_cell = first_date then Inr (Suc n)
          else if date_on_cell < first_date then Inr (Suc n + 1)
          else scan_first_row ws first_date n)"

definition WorksheetWriter_get_first_row :: "sheet \<Rightarrow> date \<Rightarrow> error + nat" where
  "WorksheetWriter_get_first_row ws first_date = scan_first_row ws first_date (max_row ws)"

text \<open>
  \<^verbatim>\<open>IpcaWriter._get_first_row\<close>: the same scan, with the date of a row built from
  its year and month cells:
  \<^verbatim>\<open>
        year = self._worksheet.cell(row, 1).value
        month = self._worksheet.cell(row, 2).value
        date_on_cell = datetime.date(year, month, 1)
  \<close>
\<close>

fun ipca_scan_first_row :: "sheet \<Rightarrow> date \<Rightarrow> nat \<Rightarrow> error + nat" where
  "ipca_scan_first_row ws first_date 0 = Inr 1"
| "ipca_scan_first_row ws first_date (Suc n) =
     (if Suc n < 2 then Inr 1
      else case date_of_cells (cells ws (Suc n, 1)) (cells ws (Suc n, 2)) of
        Inl e \<Rightarrow> Inl e
      | Inr date_on_cell \<Rightarrow>
          if date_on_cell = first_date then Inr (Suc n)
          else if date_on_cell < first_date then Inr (Suc n + 1)
          else ipca_scan_first_row ws first_date n)"

definition IpcaWriter_get_first_row :: "sheet \<Rightarrow> date \<Rightarrow> error + nat" where
  "IpcaWriter_get_first_row ws first_date = ipca_scan_first_row ws first_date (max_row ws)"

section \<open>Decimal arithmetic\<close>

text \<open>
  The operations of \<^verbatim>\<open>decimal.Decimal\<close> the formatters use, under the default
  context the code runs in: 28 significant digits, rounding half to even.  The
  exponent limits of the context are not modelled.
\<close>

definition prec :: nat where
  "prec = 28"

text \<open>The number of decimal digits of a non-negative coefficient, \<^verbatim>\<open>len(str(n))\<close>.\<close>

function ndigits :: "int \<Rightarrow> nat" where
  "ndigits n = (if n < 10 then 1 else Suc (ndigits (n div 10)))"
  by pat_completeness auto
termination
  by (relation "measure nat") auto

declare ndigits.simps [simp del]

text \<open>
  \<open>round_half_even_div c d\<close> is \<open>c / d\<close> rounded to the nearest integer, a tie
  going to the even neighbour; \<open>d\<close> is a positive power of ten.
\<close>

definition round_half_even_div :: "int \<Rightarrow> int \<Rightarrow> int" where
  "round_half_even_div c d =
     (let a = \<bar>c\<bar>; q = a div d; r = a mod d
      in sgn c * (if 2 * r < d then q
                  else if d < 2 * r then q + 1
                  else if even q then q else q + 1))"

text \<open>
  The context's rounding of a result: a coefficient of more than \<open>prec\<close> digits is
  rounded to \<open>prec\<close> digits.
\<close>

definition dec_fix :: "decimal \<Rightarrow> decimal" where
  "dec_fix x =
     (let n = ndigits \<bar>coefficient x\<bar>
      in if n \<le> prec then x
         else let k = n - prec; c = round_half_even_div (coefficient x) (10 ^ k)
              in if \<bar>c\<bar> = 10 ^ prec then Dec (c div 10) (exponent x + int k + 1)
                 else Dec c (exponent x + int k))"

text \<open>\<^verbatim>\<open>a * b\<close>\<close>

definition dec_mul :: "decimal \<Rightarrow> decimal \<Rightarrow> decimal" where
  "dec_mul a b = dec_fix (Dec (coefficient a * coefficient b) (exponent a + exponent b))"

text \<open>\<^verbatim>\<open>a + b\<close>: the exact sum at the smaller exponent, then the context's rounding.\<close>

definition dec_add :: "decimal \<Rightarrow> decimal \<Rightarrow> decimal" where
  "dec_add a b =
     (let e = min (exponent a) (exponent b)
      in dec_fix (Dec (coefficient a * 10 ^ nat (exponent a - e)
                       + coefficient b * 10 ^ nat (exponent b - e)) e))"

text \<open>
  \<^verbatim>\<open>a / b\<close>: a zero divisor raises DivisionByZero, or InvalidOperation when the
  dividend is zero too; otherwise the quotient to \<open>prec + 1\<close> digits with a sticky last digit when it is
  inexact; an exact quotient loses its trailing zeros down to the ideal exponent
  \<open>exponent a - exponent b\<close>:
  \<^verbatim>\<open>
    while exp < ideal_exp and coeff % 10 == 0:
        coeff //= 10
        exp += 1
  \<close>
\<close>

function strip_zeros :: "int \<Rightarrow> int \<Rightarrow> int \<Rightarrow> int \<times> int" where
  "strip_zeros coeff expn ideal_exp =
     (if expn < ideal_exp \<and> coeff mod 10 = 0
      then strip_zeros (coeff div 10) (expn + 1) ideal_exp
      else (coeff, expn))"
  by pat_completeness auto
termination
  by (relation "measure (\<lambda>(coeff, expn, ideal_exp). nat (ideal_exp - expn))") auto

declare strip_zeros.simps [simp del]

definition dec_truediv :: "decimal \<Rightarrow> decimal \<Rightarrow> error + decimal" where
  "dec_truediv a b =
     (if coefficient b = 0
      then Inl (if coefficient a = 0 then InvalidOperation else DivisionByZero)
      else if coefficient a = 0 then Inr (dec_fix (Dec 0 (exponent a - exponent b)))
      else
        let sign = sgn (coefficient a) * sgn (coefficient b);
            ca = \<bar>coefficient a\<bar>;
            cb = \<bar>coefficient b\<bar>;
            shift = int (ndigits cb) - int (ndigits ca) + int prec + 1;
            expn = exponent a - exponent b - shift;
            num = (if 0 \<le> shift then ca * 10 ^ nat shift else ca);
            den = (if 0 \<le> shift then cb else cb * 10 ^ nat (- shift));
            coeff = num div den;
            remainder = num mod den;
            (coeff', expn') =
              (if remainder \<noteq> 0
               then (if coeff mod 5 = 0 then coeff + 1 else coeff, expn)
               else strip_zeros coeff expn (exponent a - exponent b))
        in Inr (dec_fix (Dec (sign * coeff') expn')))"

text \<open>
  \<^verbatim>\<open>round(x, n)\<close>, that is \<^verbatim>\<open>x.quantize(Decimal((0, (1,), -n)))\<close>: the coefficient
  at exponent \<open>- n\<close>, rounded half to even; the operation is invalid when the
  result needs more than \<open>prec\<close> digits.
\<close>

definition dec_rescale :: "decimal \<Rightarrow> int \<Rightarrow> decimal" where
  "dec_rescale x e =
     (if e \<le> exponent x then Dec (coefficient x * 10 ^ nat (exponent x - e)) e
      else Dec (round_half_even_div (coefficient x) (10 ^ nat (e - exponent x))) e)"

definition dec_round :: "decimal \<Rightarrow> int \<Rightarrow> error + decimal" where
  "dec_round x n =
     (if coefficient x = 0 then Inr (Dec 0 (- n))
      else if int prec < int (ndigits \<bar>coefficient x\<bar>) + exponent x + n
        then Inl InvalidOperation
      else
        let ans = dec_rescale x (- n)
        in if prec < ndigits \<bar>coefficient ans\<bar> then Inl InvalidOperation
           else Inr ans)"

section \<open>Record formatters\<close>

text \<open>The concrete subclasses of \<^verbatim>\<open>WorksheetWriter\<close>.\<close>

datatype worksheet_writer = SelicWriter | CdiWriter | IpcaWriter | TrWriter

text \<open>\<^verbatim>\<open>WorksheetWriter._get_headers\<close> and its overrides.\<close>

definition WorksheetWriter_get_headers :: "string list" where
  "WorksheetWriter_get_headers = [''date'', ''value'']"

definition SelicWriter_get_headers :: "string list" where
  "SelicWriter_get_headers = WorksheetWriter_get_headers @ [''daily_value'']"

definition CdiWriter_get_headers :: "string list" where
  "CdiWriter_get_headers = WorksheetWriter_get_headers @ [''daily_value'']"

definition IpcaWriter_get_headers :: "string list" where
  "IpcaWriter_get_headers = [''ano'', ''mes'', ''valor'']"

definition TrWriter_get_headers :: "string list" where
  "TrWriter_get_headers = [''data inicial'', ''data final'', ''valor'']"

text \<open>
  \<^verbatim>\<open>SelicWriter._format_record\<close>:
  \<^verbatim>\<open>
    daily_value = (1 + round(record.value * 1 / 100, 8))
    return (record.date, record.value, daily_value)
  \<close>
\<close>

definition SelicWriter_format_record :: "indicator_record \<Rightarrow> error + cell list" where
  "SelicWriter_format_record record =
     (case dec_truediv (dec_mul (value record) (Dec 1 0)) (Dec 100 0) of
        Inl e \<Rightarrow> Inl e
      | Inr q \<Rightarrow>
          (case dec_round q 8 of
             Inl e \<Rightarrow> Inl e
           | Inr rounded \<Rightarrow>
               let daily_value = dec_add (Dec 1 0) rounded
               in Inr [VDate (date record), VDec (value record), VDec daily_value]))"

text \<open>\<^verbatim>\<open>CdiWriter._format_record\<close>: the same statements, in a class of its own.\<close>

definition CdiWriter_format_record :: "indicator_record \<Rightarrow> error + cell list" where
  "CdiWriter_format_record record =
     (case dec_truediv (dec_mul (value record) (Dec 1 0)) (Dec 100 0) of
        Inl e \<Rightarrow> Inl e
      | Inr q \<Rightarrow>
          (case dec_round q 8 of
             Inl e \<Rightarrow> Inl e
           | Inr rounded \<Rightarrow>
               let daily_value = dec_add (Dec 1 0) rounded
               in Inr [VDate (date record), VDec (value record), VDec daily_value]))"

text \<open>\<^verbatim>\<open>return record.date.year, record.date.month, record.value\<close>\<close>

definition IpcaWriter_format_record :: "indicator_record \<Rightarrow> error + cell list" where
  "IpcaWriter_format_record record =
     Inr [VInt (year (date record)), VInt (month (date record)), VDec (value record)]"

text \<open>\<^verbatim>\<open>return record.date, record.end_date, record.value\<close>\<close>

definition date_cell :: "date option \<Rightarrow> cell" where
  "date_cell d = (case d of None \<Rightarrow> VNone | Some x \<Rightarrow> VDate x)"

definition TrWriter_format_record :: "indicator_record \<Rightarrow> error + cell list" where
  "TrWriter_format_record record =
     Inr [VDate (date record), date_cell (end_date record), VDec (value record)]"

text \<open>Method dispatch on the class of the writer.\<close>

fun get_headers :: "worksheet_writer \<Rightarrow> string list" where
  "get_headers SelicWriter = SelicWriter_get_headers"
| "get_headers CdiWriter = CdiWriter_get_headers"
| "get_headers IpcaWriter = IpcaWriter_get_headers"
| "get_headers TrWriter = TrWriter_get_headers"

fun format_record :: "worksheet_writer \<Rightarrow> indicator_record \<Rightarrow> error + cell list" where
  "format_record SelicWriter = SelicWriter_format_record"
| "format_record CdiWriter = CdiWriter_format_record"
| "format_record IpcaWriter = IpcaWriter_format_record"
| "format_record TrWriter = TrWriter_format_record"

fun get_first_row :: "worksheet_writer \<Rightarrow> sheet \<Rightarrow> date \<Rightarrow> error + nat" where
  "get_first_row IpcaWriter = IpcaWriter_get_first_row"
| "get_first_row SelicWriter = WorksheetWriter_get_first_row"
| "get_first_row CdiWriter = WorksheetWriter_get_first_row"
| "get_first_row TrWriter = WorksheetWriter_get_first_row"

section \<open>Reconciling writer\<close>

text \<open>
  \<^verbatim>\<open>for column, x in enumerate(xs, c): self._worksheet.cell(row, column).value = x\<close>
\<close>

fun write_cells :: "sheet \<Rightarrow> nat \<Rightarrow> nat \<Rightarrow> cell list \<Rightarrow> sheet" where
  "write_cells ws row column [] = ws"
| "write_cells ws row column (x # xs) =
     write_cells (set_cell ws row column x) row (Suc column) xs"

text \<open>\<^verbatim>\<open>WorksheetWriter._write_headers\<close>\<close>

definition write_headers :: "worksheet_writer \<Rightarrow> sheet \<Rightarrow> sheet" where
  "write_headers w ws = write_cells ws 1 1 (map VStr (get_headers w))"

text \<open>
  \<^verbatim>\<open>WorksheetWriter._erase_extra_records\<close>:
  \<^verbatim>\<open>
    for row in range(row, self._worksheet.max_row + 1):
        for column in range(1, self._worksheet.max_column + 1):
            self._worksheet.cell(row, column).value = None
  \<close>
\<close>

definition erase_row :: "sheet \<Rightarrow> nat \<Rightarrow> sheet" where
  "erase_row ws row =
     fold (\<lambda>column s. set_cell s row column VNone) [1..<Suc (max_column ws)] ws"

definition erase_extra_records :: "sheet \<Rightarrow> nat \<Rightarrow> sheet" where
  "erase_extra_records ws row =
     fold (\<lambda>r s. erase_row s r) [row..<Suc (max_row ws)] ws"

text \<open>
  The loop of \<^verbatim>\<open>_write_records\<close> over the records:
  \<^verbatim>\<open>
    for row, record in enumerate(self._indicator_records, first_row):
        formatted_record = self._format_record(record)
        for column, column_data in enumerate(formatted_record, 1):
            self._worksheet.cell(row, column).value = column_data
  \<close>
  An exception leaves the sheet as it is when it is raised.
\<close>

fun write_rows ::
  "worksheet_writer \<Rightarrow> sheet \<Rightarrow> nat \<Rightarrow> indicator_record list \<Rightarrow> (error \<times> sheet) + sheet" where
  "write_rows w ws row [] = Inr ws"
| "write_rows w ws row (record # records) =
     (case format_record w record of
        Inl e \<Rightarrow> Inl (e, ws)
      | Inr formatted_record \<Rightarrow>
          write_rows w (write_cells ws row 1 formatted_record) (Suc row) records)"

text \<open>
  \<^verbatim>\<open>WorksheetWriter._write_records\<close>, which the constructor runs.  The records are a
  sequence: on an empty one \<^verbatim>\<open>self._indicator_records[0]\<close> raises IndexError, which
  the handler for KeyError does not catch.  After the loop over a non-empty
  sequence \<^verbatim>\<open>row\<close> is the last row written, so \<^verbatim>\<open>row + 1\<close> is
  \<open>first_row + length records\<close> and NameError is not raised.
\<close>

definition write_records ::
  "worksheet_writer \<Rightarrow> sheet \<Rightarrow> indicator_record list \<Rightarrow> (error \<times> sheet) + sheet" where
  "write_records w ws records =
     (case records of
        [] \<Rightarrow> Inl (IndexError, ws)
      | record0 # _ \<Rightarrow>
          (case get_first_row w ws (date record0) of
             Inl e \<Rightarrow> Inl (e, ws)
           | Inr located \<Rightarrow>
               let ws1 = (if located = 1 then write_headers w ws else ws);
                   first_row = (if located = 1 then 2 else located)
               in (case write_rows w ws1 first_row records of
                     Inl failure \<Rightarrow> Inl failure
                   | Inr ws2 \<Rightarrow>
                       Inr (erase_extra_records ws2 (first_row + length records)))))"

section \<open>Metadata store\<close>

text \<open>
  \<^verbatim>\<open>int(value)\<close> on a cell value.  Null and a date are not numbers (TypeError); a
  decimal is truncated towards zero; a text is read as a decimal literal:
  whitespace around it, an optional sign, then digits that single underscores
  may separate (the interpreter's limit on the length of a literal is not
  modelled).  Any other text raises ValueError.

  A text is a sequence of characters of code 0 to 255.  Of these \<^verbatim>\<open>int\<close> strips
  the tab, the line feed, the vertical tab, the form feed, the carriage return
  and the space, and the two whitespace characters beyond ASCII, 0x85 and 0xA0,
  which it replaces by a space before it parses.  It does not strip the
  separators 0x1C to 0x1F, although \<^verbatim>\<open>str.isspace\<close> holds of them.  The only
  decimal digits among these characters are \<^verbatim>\<open>0\<close> to \<^verbatim>\<open>9\<close>.
\<close>

definition is_space :: "char \<Rightarrow> bool" where
  "is_space c \<longleftrightarrow> c \<in> set [CHR '' '', CHR 0x09, CHR 0x0A, CHR 0x0B, CHR 0x0C, CHR 0x0D,
                              CHR 0x85, CHR 0xA0]"

definition is_digit :: "char \<Rightarrow> bool" where
  "is_digit c \<longleftrightarrow> 48 \<le> (of_char c :: nat) \<and> (of_char c :: nat) \<le> 57"

definition digit_value :: "char \<Rightarrow> int" where
  "digit_value c = int (of_char c) - 48"

fun digits_tail :: "string \<Rightarrow> int \<Rightarrow> int option" where
  "digits_tail [] acc = Some acc"
| "digits_tail [c] acc = (if is_digit c then Some (acc * 10 + digit_value c) else None)"
| "digits_tail (c # d # cs) acc =
     (if is_digit c then digits_tail (d # cs) (acc * 10 + digit_value c)
      else if c = CHR ''_'' \<and> is_digit d then digits_tail cs (acc * 10 + digit_value d)
      else None)"

fun digits_start :: "string \<Rightarrow> int option" where
  "digits_start [] = None"
| "digits_start (c # cs) = (if is_digit c then digits_tail cs (digit_value c) else None)"

definition strip :: "string \<Rightarrow> string" where
  "strip s = rev (dropWhile is_space (rev (dropWhile is_space s)))"

definition int_of_string :: "string \<Rightarrow> error + int" where
  "int_of_string s =
     (let parsed =
        (case strip s of
           [] \<Rightarrow> None
         | c # cs \<Rightarrow>
             if c = CHR ''-'' then map_option uminus (digits_start cs)
             else if c = CHR ''+'' then digits_start cs
             else digits_start (c # cs))
      in case parsed of None \<Rightarrow> Inl ValueError | Some i \<Rightarrow> Inr i)"

fun py_int :: "cell \<Rightarrow> error + int" where
  "py_int VNone = Inl TypeError"
| "py_int (VInt i) = Inr i"
| "py_int (VDec x) =
     Inr (if 0 \<le> exponent x then coefficient x * 10 ^ nat (exponent x)
          else sgn (coefficient x) * (\<bar>coefficient x\<bar> div 10 ^ nat (- exponent x)))"
| "py_int (VStr s) = int_of_string s"
| "py_int (VDate d) = Inl TypeError"

text \<open>
  The dictionary \<^verbatim>\<open>indicators_dates\<close>, in insertion order; \<^verbatim>\<open>d[k] = v\<close> is
  \<open>AList.update k v d\<close>.  \<^verbatim>\<open>d[k]\<close> raises KeyError on a missing key.
\<close>

type_synonym indicators_dict = "(int \<times> date option) list"

definition dict_getitem :: "indicators_dict \<Rightarrow> int \<Rightarrow> error + date option" where
  "dict_getitem d k = (case map_of d k of None \<Rightarrow> Inl KeyError | Some v \<Rightarrow> Inr v)"

record metadata_writer =
  worksheet :: sheet
  indicators_dates :: indicators_dict

text \<open>\<^verbatim>\<open>MetadataWriter._write_headers\<close>\<close>

definition MetadataWriter_write_headers :: "sheet \<Rightarrow> sheet" where
  "MetadataWriter_write_headers ws = write_cells ws 1 1 (map VStr [''indicator'', ''last date''])"

text \<open>
  \<^verbatim>\<open>MetadataWriter._get_indicator_last_date\<close>:
  \<^verbatim>\<open>
    for row in range(self._worksheet.max_row, 1, -1):
        try:
            cod = int(self._worksheet.cell(row, 1).value)
        except TypeError:
            continue
        try:
            date = self._worksheet.cell(row, 2).value.date()
        except AttributeError:
            date = None
        indicador_date[cod] = date
  \<close>
\<close>

definition last_date_of_cell :: "cell \<Rightarrow> error + date option" where
  "last_date_of_cell v =
     (case cell_date v of
        Inl e \<Rightarrow> if e = AttributeError then Inr None else Inl e
      | Inr d \<Rightarrow> Inr (Some d))"

fun scan_indicators :: "sheet \<Rightarrow> nat \<Rightarrow> indicators_dict \<Rightarrow> error + indicators_dict" where
  "scan_indicators ws 0 indicador_date = Inr indicador_date"
| "scan_indicators ws (Suc n) indicador_date =
     (if Suc n < 2 then Inr indicador_date
      else case py_int (cells ws (Suc n, 1)) of
        Inl e \<Rightarrow> if e = TypeError then scan_indicators ws n indicador_date else Inl e
      | Inr cod \<Rightarrow>
          (case last_date_of_cell (cells ws (Suc n, 2)) of
             Inl e \<Rightarrow> Inl e
           | Inr d \<Rightarrow> scan_indicators ws n (AList.update cod d indicador_date)))"

definition get_indicator_last_date_rows :: "sheet \<Rightarrow> error + indicators_dict" where
  "get_indicator_last_date_rows ws = scan_indicators ws (max_row ws) []"

text \<open>
  \<^verbatim>\<open>MetadataWriter.__init__\<close>: the headers are written, then the rows are read.
  An exception leaves the sheet with its headers written.
\<close>

definition MetadataWriter_init :: "sheet \<Rightarrow> (error \<times> sheet) + metadata_writer" where
  "MetadataWriter_init ws =
     (let ws1 = MetadataWriter_write_headers ws
      in case get_indicator_last_date_rows ws1 of
           Inl e \<Rightarrow> Inl (e, ws1)
         | Inr d \<Rightarrow> Inr \<lparr>worksheet = ws1, indicators_dates = d\<rparr>)"

text \<open>
  \<^verbatim>\<open>MetadataWriter.write_indicators_last_date\<close>:
  \<^verbatim>\<open>
    row = 2
    for indicator, date in sorted(self.indicators_dates.items()):
        self._worksheet.cell(row, 1).value = indicator
        self._worksheet.cell(row, 2).value = date
        row += 1
  \<close>
  The keys of a dictionary are distinct, so \<^verbatim>\<open>sorted\<close> orders the items by key.
\<close>

fun write_items :: "sheet \<Rightarrow> nat \<Rightarrow> (int \<times> date option) list \<Rightarrow> sheet" where
  "write_items ws row [] = ws"
| "write_items ws row ((indicator, d) # items) =
     write_items (set_cell (set_cell ws row 1 (VInt indicator)) row 2 (date_cell d))
       (Suc row) items"

definition sorted_items :: "indicators_dict \<Rightarrow> (int \<times> date option) list" where
  "sorted_items d = sort_key fst d"

definition write_indicators_last_date :: "metadata_writer \<Rightarrow> metadata_writer" where
  "write_indicators_last_date mw =
     mw\<lparr>worksheet := write_items (worksheet mw) 2 (sorted_items (indicators_dates mw))\<rparr>"

section \<open>Store facade\<close>

text \<open>
  The static registry \<^verbatim>\<open>IndicatorsWorkbook._worksheet_properties\<close>.  The writer of
  the metadata sheet is the class \<^verbatim>\<open>MetadataWriter\<close>, every other one a
  \<^verbatim>\<open>WorksheetWriter\<close>.
\<close>

datatype writer_class = MetadataWriter | Writer worksheet_writer

record properties =
  name :: string
  color :: string
  writer :: writer_class
  state :: string

definition worksheet_properties :: "int \<Rightarrow> properties option" where
  "worksheet_properties code =
     (if code = - 1 then
        Some \<lparr>name = ''metadata'', color = ''000000'', writer = MetadataWriter,
              state = ''veryHidden''\<rparr>
      else if code = 11 then
        Some \<lparr>name = ''selic'', color = ''0000FF'', writer = Writer SelicWriter,
              state = ''visible''\<rparr>
      else if code = 12 then
        Some \<lparr>name = ''cdi'', color = ''00FF00'', writer = Writer CdiWriter,
              state = ''visible''\<rparr>
      else if code = 433 then
        Some \<lparr>name = ''ipca'', color = ''FFA500'', writer = Writer IpcaWriter,
              state = ''visible''\<rparr>
      else if code = 226 then
        Some \<lparr>name = ''tr'', color = ''FF0000'', writer = Writer TrWriter,
              state = ''visible''\<rparr>
      else None)"

text \<open>
  The workbook: its worksheets by name, each with its grid, tab colour and
  visibility, and the dictionary of the metadata writer (whose worksheet is the
  sheet named \<open>metadata\<close>).
\<close>

record workbook_sheet =
  grid :: sheet
  tabColor :: string
  sheet_state :: string

record indicators_workbook =
  sheets :: "string \<rightharpoonup> workbook_sheet"
  metadata_dates :: indicators_dict

text \<open>
  \<^verbatim>\<open>IndicatorsWorkbook._create_sheet\<close>: the sheet of that name if the workbook has
  it, a new one with the registry's colour and visibility otherwise.
\<close>

definition create_sheet ::
  "indicators_workbook \<Rightarrow> int \<Rightarrow> error + (indicators_workbook \<times> workbook_sheet)" where
  "create_sheet wb indicators_code =
     (case worksheet_properties indicators_code of
        None \<Rightarrow> Inl KeyError
      | Some p \<Rightarrow>
          (case sheets wb (name p) of
             Some ws \<Rightarrow> Inr (wb, ws)
           | None \<Rightarrow>
               let ws = \<lparr>grid = new_sheet, tabColor = color p, sheet_state = state p\<rparr>
               in Inr (wb\<lparr>sheets := (sheets wb)(name p \<mapsto> ws)\<rparr>, ws)))"

text \<open>
  \<^verbatim>\<open>IndicatorsWorkbook.get_indicator_last_date\<close>:
  \<^verbatim>\<open>
    try:
        lastest_date = self._metadata_writer.indicators_dates[indicator_code]
    except KeyError:
        lastest_date = None
    return lastest_date
  \<close>
\<close>

definition get_indicator_last_date :: "indicators_workbook \<Rightarrow> int \<Rightarrow> error + date option" where
  "get_indicator_last_date wb indicator_code =
     (case dict_getitem (metadata_dates wb) indicator_code of
        Inl e \<Rightarrow> if e = KeyError then Inr None else Inl e
      | Inr lastest_date \<Rightarrow> Inr lastest_date)"

text \<open>
  \<^verbatim>\<open>IndicatorsWorkbook.write_records\<close>:
  \<^verbatim>\<open>
    name = self.__class__._worksheet_properties[indicator_code]['name']
    writer = self.__class__._worksheet_properties[indicator_code]['writer']
    ws = self._create_sheet(indicator_code)
    writer(ws, records)
    self._metadata_writer.indicators_dates[indicator_code] = last_non_extended_date
  \<close>
  The constructor of \<^verbatim>\<open>MetadataWriter\<close> takes no records, so calling it with two
  arguments raises TypeError.  An exception leaves the workbook as it is when it
  is raised.
\<close>

definition IndicatorsWorkbook_write_records ::
  "indicators_workbook \<Rightarrow> int \<Rightarrow> indicator_record list \<Rightarrow> date option
     \<Rightarrow> (error \<times> indicators_workbook) + indicators_workbook" where
  "IndicatorsWorkbook_write_records wb indicator_code records last_non_extended_date =
     (case worksheet_properties indicator_code of
        None \<Rightarrow> Inl (KeyError, wb)
      | Some p \<Rightarrow>
          (case create_sheet wb indicator_code of
             Inl e \<Rightarrow> Inl (e, wb)
           | Inr (wb1, ws) \<Rightarrow>
               (case writer p of
                  MetadataWriter \<Rightarrow> Inl (TypeError, wb1)
                | Writer w \<Rightarrow>
                    (case write_records w (grid ws) records of
                       Inl (e, g) \<Rightarrow>
                         Inl (e, wb1\<lparr>sheets := (sheets wb1)(name p \<mapsto> ws\<lparr>grid := g\<rparr>)\<rparr>)
                     | Inr g \<Rightarrow>
                         Inr (wb1\<lparr>sheets := (sheets wb1)(name p \<mapsto> ws\<lparr>grid := g\<rparr>),
                                  metadata_dates :=
                                    AList.update indicator_code last_non_extended_date
                                      (metadata_dates wb1)\<rparr>)))))"

section \<open>The rounding law, as the specification words it\<close>

text \<open>
  The number a decimal denotes, and rounding half to even on exact rationals:
  the specification's \<open>1 + round(value / 100, 8)\<close> is
  \<open>1 + round_half_even (value / 100 * 10 ^ 8) / 10 ^ 8\<close>.
\<close>

definition dec_val :: "decimal \<Rightarrow> rat" where
  "dec_val x =
     (if 0 \<le> exponent x then of_int (coefficient x) * 10 ^ nat (exponent x)
      else of_int (coefficient x) / 10 ^ nat (- exponent x))"

definition round_half_even :: "rat \<Rightarrow> int" where
  "round_half_even q =
     (let f = \<lfloor>q\<rfloor>; r = q - of_int f
      in if r < 1 / 2 then f
         else if 1 / 2 < r then f + 1
         else if even f then f else f + 1)"

definition spec_daily_value :: "decimal \<Rightarrow> rat" where
  "spec_daily_value v = 1 + of_int (round_half_even (dec_val v / 100 * 10 ^ 8)) / 10 ^ 8"

section \<open>Example inputs\<close>

text \<open>
  A Selic sheet with its header row and five data rows, dated 2 to 6 January
  2024.
\<close>

definition example_sheet :: sheet where
  "example_sheet =
     \<lparr>cells = (\<lambda>(r, c).
          if 2 \<le> r \<and> r \<le> 6 \<and> c = 1 then VDate (Date 2024 1 (int r))
          else if 2 \<le> r \<and> r \<le> 6 \<and> c = 2 then VDec (Dec 5 (- 2))
          else if 2 \<le> r \<and> r \<le> 6 \<and> c = 3 then VDec (Dec 100050000 (- 8))
          else if r = 1 \<and> c = 1 then VStr ''date''
          else if r = 1 \<and> c = 2 then VStr ''value''
          else if r = 1 \<and> c = 3 then VStr ''daily_value''
          else VNone),
       max_row = 6, max_column = 3\<rparr>"

text \<open>A workbook with no worksheet yet, whose metadata holds a last date for Selic.\<close>

definition example_workbook :: indicators_workbook where
  "example_workbook = \<lparr>sheets = Map.empty, metadata_dates = [(11, Some (Date 2024 1 3))]\<rparr>"

text \<open>A record of 2 January 2024 with the value 0.065.\<close>

definition example_record :: indicator_record where
  "example_record = \<lparr>date = Date 2024 1 2, value = Dec 65 (- 3), end_date = None\<rparr>"

text \<open>
  Three metadata sheets.  In the first, row 2 has the identifier 11 and an empty
  date cell, and row 3 has an empty identifier cell.  In the second, the
  identifier cell of row 2 holds a text that is no number.  In the third, rows 2
  and 3 both hold the identifier 11.
\<close>

definition example_metadata_sheet :: sheet where
  "example_metadata_sheet =
     \<lparr>cells = (\<lambda>_. VNone)((2, 1) := VInt 11, (3, 2) := VDate (Date 2024 1 3)),
       max_row = 3, max_column = 2\<rparr>"

definition text_identifier_sheet :: sheet where
  "text_identifier_sheet =
     \<lparr>cells = (\<lambda>_. VNone)((2, 1) := VStr ''abc''), max_row = 2, max_column = 1\<rparr>"

definition repeated_identifier_sheet :: sheet where
  "repeated_identifier_sheet =
     \<lparr>cells = (\<lambda>_. VNone)
        ((2, 1) := VInt 11, (2, 2) := VDate (Date 2024 1 2),
         (3, 1) := VInt 11, (3, 2) := VDate (Date 2024 1 3)),
       max_row = 3, max_column = 2\<rparr>"

text \<open>An IPCA sheet with its header row and the months May, June and July 2023.\<close>

definition example_ipca_sheet :: sheet where
  "example_ipca_sheet =
     \<lparr>cells = (\<lambda>(r, c).
          if 2 \<le> r \<and> r \<le> 4 \<and> c = 1 then VInt 2023
          else if 2 \<le> r \<and> r \<le> 4 \<and> c = 2 then VInt (int r + 3)
          else if 2 \<le> r \<and> r \<le> 4 \<and> c = 3 then VDec (Dec 23 (- 2))
          else if r = 1 \<and> c = 1 then VStr ''ano''
          else if r = 1 \<and> c = 2 then VStr ''mes''
          else if r = 1 \<and> c = 3 then VStr ''valor''
          else VNone),
       max_row = 4, max_column = 3\<rparr>"

text \<open>
  IPCA records: one record dated in the middle of June 2023, and two records
  of consecutive months of which the first is dated on the first day.
\<close>

definition mid_month_record :: indicator_record where
  "mid_month_record = \<lparr>date = Date 2023 6 15, value = Dec 23 (- 2), end_date = None\<rparr>"

definition ipca_records :: "indicator_record list" where
  "ipca_records =
     [\<lparr>date = Date 2023 6 1, value = Dec 23 (- 2), end_date = None\<rparr>,
      \<lparr>date = Date 2023 7 15, value = Dec 12 (- 2), end_date = None\<rparr>]"

text \<open>
  Selic records: the rate 0.05 of the scenario, a value of 29 significant
  digits, and a value of magnitude \<open>10 ^ 30\<close>.
\<close>

definition scenario_record :: indicator_record where
  "scenario_record = \<lparr>date = Date 2024 1 2, value = Dec 5 (- 2), end_date = None\<rparr>"

definition long_value_record :: indicator_record where
  "long_value_record =
     \<lparr>date = Date 2024 1 2, value = Dec 14999999999999999999999999999 (- 34), end_date = None\<rparr>"

definition huge_value_record :: indicator_record where
  "huge_value_record = \<lparr>date = Date 2024 1 2, value = Dec 1 30, end_date = None\<rparr>"

section \<open>Verified properties\<close>

subsection \<open>The row locator\<close>

text \<open>
  Where the scan of \<^verbatim>\<open>_get_first_row\<close> stops, on a sheet whose rows 2 to \<open>n\<close> hold
  dates: at the lowest row dated \<open>first_date\<close> or earlier, every row below it
  being later; or nowhere, when every row is later.
\<close>

lemma scan_first_row_cases:
  assumes "\<forall>r. 2 \<le> r \<and> r \<le> n \<longrightarrow> cells ws (r, 1) = VDate (key r)"
  shows "(\<exists>k. 2 \<le> k \<and> k \<le> n \<and> key k = fd \<and> (\<forall>r. k < r \<and> r \<le> n \<longrightarrow> fd < key r)
            \<and> scan_first_row ws fd n = Inr k)
       \<or> (\<exists>k. 2 \<le> k \<and> k \<le> n \<and> key k < fd \<and> (\<forall>r. k < r \<and> r \<le> n \<longrightarrow> fd < key r)
            \<and> scan_first_row ws fd n = Inr (Suc k))
       \<or> ((\<forall>r. 2 \<le> r \<and> r \<le> n \<longrightarrow> fd < key r) \<and> scan_first_row ws fd n = Inr 1)"
  using assms
proof (induction n)
  case 0
  then show ?case by simp
next
  case (Suc n)
  show ?case
  proof (cases "Suc n < 2")
    case True
    then show ?thesis by auto
  next
    case False
    then have cell: "cells ws (Suc n, 1) = VDate (key (Suc n))"
      using Suc.prems by simp
    consider (eq) "key (Suc n) = fd" | (lt) "key (Suc n) < fd" | (gt) "fd < key (Suc n)"
      using less_linear by blast
    then show ?thesis
    proof cases
      case eq
      with False cell show ?thesis by auto
    next
      case lt
      with False cell show ?thesis by auto
    next
      case gt
      have step: "scan_first_row ws fd (Suc n) = scan_first_row ws fd n"
        using False cell gt by auto
      have up: "\<And>r. r \<le> Suc n \<Longrightarrow> r \<le> n \<or> r = Suc n"
        by arith
      from Suc.IH Suc.prems
      have "(\<exists>k. 2 \<le> k \<and> k \<le> n \<and> key k = fd \<and> (\<forall>r. k < r \<and> r \<le> n \<longrightarrow> fd < key r)
            \<and> scan_first_row ws fd n = Inr k)
       \<or> (\<exists>k. 2 \<le> k \<and> k \<le> n \<and> key k < fd \<and> (\<forall>r. k < r \<and> r \<le> n \<longrightarrow> fd < key r)
            \<and> scan_first_row ws fd n = Inr (Suc k))
       \<or> ((\<forall>r. 2 \<le> r \<and> r \<le> n \<longrightarrow> fd < key r) \<and> scan_first_row ws fd n = Inr 1)"
        by simp
      then show ?thesis
        unfolding step using gt up
        by (elim disjE exE conjE) (metis le_SucI)+
    qed
  qed
qed

lemma example_sheet_simps:
  "max_row example_sheet = 6"
  "2 \<le> r \<Longrightarrow> r \<le> 6 \<Longrightarrow> cells example_sheet (r, 1) = VDate (Date 2024 1 (int r))"
  "2 \<le> r \<Longrightarrow> r \<le> 6 \<Longrightarrow> cells example_sheet (r, Suc 0) = VDate (Date 2024 1 (int r))"
  by (simp_all add: example_sheet_def)

text \<open>
  Claim C2.  On a sheet whose rows 2 to \<open>max_row\<close> hold dates in column 1, sorted
  ascending, \<^verbatim>\<open>_get_first_row\<close> scans from \<open>max_row\<close> down to row 2 and returns:
  the index of a row dated \<open>first_date\<close> when there is one (the row the scan
  reaches, every row below it being later); \<open>row + 1\<close> for the first scanned row
  dated strictly earlier than \<open>first_date\<close> when no row is dated \<open>first_date\<close>; and
  1 when no row meets either condition, that is when the sheet has no data row
  or every row is dated later than \<open>first_date\<close>.
\<close>

theorem get_first_row_on_sorted_sheet:
  assumes dates: "\<forall>r. 2 \<le> r \<and> r \<le> max_row ws \<longrightarrow> cells ws (r, 1) = VDate (key r)"
      and sorted: "\<forall>r r'. 2 \<le> r \<and> r \<le> r' \<and> r' \<le> max_row ws \<longrightarrow> key r \<le> key r'"
  shows "((\<exists>r. 2 \<le> r \<and> r \<le> max_row ws \<and> key r = first_date) \<longrightarrow>
            (\<exists>row. WorksheetWriter_get_first_row ws first_date = Inr row \<and>
                   2 \<le> row \<and> row \<le> max_row ws \<and> key row = first_date \<and>
                   (\<forall>r. row < r \<and> r \<le> max_row ws \<longrightarrow> first_date < key r)))
       \<and> ((\<forall>r. 2 \<le> r \<and> r \<le> max_row ws \<longrightarrow> key r \<noteq> first_date) \<and>
          (\<exists>r. 2 \<le> r \<and> r \<le> max_row ws \<and> key r < first_date) \<longrightarrow>
            (\<exists>row. WorksheetWriter_get_first_row ws first_date = Inr (row + 1) \<and>
                   2 \<le> row \<and> row \<le> max_row ws \<and> key row < first_date \<and>
                   (\<forall>r. row < r \<and> r \<le> max_row ws \<longrightarrow> first_date < key r)))
       \<and> ((\<forall>r. 2 \<le> r \<and> r \<le> max_row ws \<longrightarrow> first_date < key r) \<longrightarrow>
            WorksheetWriter_get_first_row ws first_date = Inr 1)"
proof -
  let ?n = "max_row ws"
  let ?res = "WorksheetWriter_get_first_row ws first_date"
  note scan = scan_first_row_cases [OF dates, of first_date,
      folded WorksheetWriter_get_first_row_def]
  have p1: "\<exists>row. ?res = Inr row \<and> 2 \<le> row \<and> row \<le> ?n \<and> key row = first_date \<and>
                   (\<forall>r. row < r \<and> r \<le> ?n \<longrightarrow> first_date < key r)"
    if "2 \<le> r" "r \<le> ?n" "key r = first_date" for r
  proof -
    from scan show ?thesis
    proof (elim disjE exE conjE)
      fix k assume "2 \<le> k" "k \<le> ?n" "key k = first_date"
        "\<forall>r. k < r \<and> r \<le> ?n \<longrightarrow> first_date < key r" "?res = Inr k"
      then show ?thesis by blast
    next
      fix k assume k: "2 \<le> k" "k \<le> ?n" "key k < first_date"
        "\<forall>r. k < r \<and> r \<le> ?n \<longrightarrow> first_date < key r"
      show ?thesis
      proof (cases "r \<le> k")
        case True
        with sorted that k have "key r \<le> key k" by blast
        with that k show ?thesis by simp
      next
        case False
        then have "k < r" by simp
        with k(4) that(2) have "first_date < key r" by blast
        with that(3) show ?thesis by simp
      qed
    next
      assume "\<forall>r. 2 \<le> r \<and> r \<le> ?n \<longrightarrow> first_date < key r"
      with that show ?thesis by auto
    qed
  qed
  have p2: "\<exists>row. ?res = Inr (row + 1) \<and> 2 \<le> row \<and> row \<le> ?n \<and> key row < first_date \<and>
                   (\<forall>r. row < r \<and> r \<le> ?n \<longrightarrow> first_date < key r)"
    if "\<forall>r. 2 \<le> r \<and> r \<le> ?n \<longrightarrow> key r \<noteq> first_date" "2 \<le> r" "r \<le> ?n" "key r < first_date"
    for r
  proof -
    from scan show ?thesis
    proof (elim disjE exE conjE)
      fix k assume "2 \<le> k" "k \<le> ?n" "key k = first_date"
      with that show ?thesis by blast
    next
      fix k assume "2 \<le> k" "k \<le> ?n" "key k < first_date"
        "\<forall>r. k < r \<and> r \<le> ?n \<longrightarrow> first_date < key r" "?res = Inr (Suc k)"
      then show ?thesis by auto
    next
      assume "\<forall>r. 2 \<le> r \<and> r \<le> ?n \<longrightarrow> first_date < key r"
      with that show ?thesis by (metis less_asym)
    qed
  qed
  have p3: "?res = Inr 1" if "\<forall>r. 2 \<le> r \<and> r \<le> ?n \<longrightarrow> first_date < key r"
  proof -
    from scan show ?thesis
    proof (elim disjE exE conjE)
      fix k assume "2 \<le> k" "k \<le> ?n" "key k = first_date"
      with that show ?thesis by (metis less_irrefl)
    next
      fix k assume "2 \<le> k" "k \<le> ?n" "key k < first_date"
      with that show ?thesis by (metis less_asym)
    qed
  qed
  from p1 p2 p3 show ?thesis by blast
qed

theorem get_first_row_on_sorted_sheet_witness:
  "WorksheetWriter_get_first_row example_sheet (Date 2024 1 4) = Inr 4
   \<and> WorksheetWriter_get_first_row example_sheet (Date 2024 1 9) = Inr 7
   \<and> WorksheetWriter_get_first_row example_sheet (Date 2023 12 31) = Inr 1"
proof -
  let ?key = "\<lambda>r. Date 2024 1 (int r)"
  have dates: "\<forall>r. 2 \<le> r \<and> r \<le> max_row example_sheet \<longrightarrow>
      cells example_sheet (r, 1) = VDate (?key r)"
    by (simp add: example_sheet_simps)
  have sorted: "\<forall>r r'. 2 \<le> r \<and> r \<le> r' \<and> r' \<le> max_row example_sheet \<longrightarrow> ?key r \<le> ?key r'"
    by (auto simp: less_eq_date_def less_date_def)
  note main = get_first_row_on_sorted_sheet [OF dates sorted]
  have a: "WorksheetWriter_get_first_row example_sheet (Date 2024 1 4) = Inr 4"
    using main [of "Date 2024 1 4"] by (auto simp: example_sheet_simps)
  have b: "WorksheetWriter_get_first_row example_sheet (Date 2024 1 9) = Inr 7"
  proof -
    have "\<exists>row. WorksheetWriter_get_first_row example_sheet (Date 2024 1 9) = Inr (row + 1) \<and>
                2 \<le> row \<and> row \<le> max_row example_sheet \<and> ?key row < Date 2024 1 9 \<and>
                (\<forall>r. row < r \<and> r \<le> max_row example_sheet \<longrightarrow> Date 2024 1 9 < ?key r)"
      using main [of "Date 2024 1 9"]
      by (auto simp: example_sheet_simps less_date_def)
    then obtain row where row: "WorksheetWriter_get_first_row example_sheet (Date 2024 1 9) = Inr (row + 1)"
      "2 \<le> row" "row \<le> 6" "\<forall>r. row < r \<and> r \<le> 6 \<longrightarrow> Date 2024 1 9 < ?key r"
      by (auto simp: example_sheet_simps)
    have "row = 6"
    proof (rule ccontr)
      assume "row \<noteq> 6"
      with row(3) have "row < 6" by simp
      with row(4) have "Date 2024 1 9 < Date 2024 1 (int (6::nat))" by blast
      then show False by (simp add: less_date_def)
    qed
    with row show ?thesis by simp
  qed
  have c: "WorksheetWriter_get_first_row example_sheet (Date 2023 12 31) = Inr 1"
    using main [of "Date 2023 12 31"] by (auto simp: example_sheet_simps less_date_def)
  from a b c show ?thesis by blast
qed

subsection \<open>Identifiers outside the registry\<close>

text \<open>
  Claim C9 says that both operations of the workbook that take an identifier
  raise on one the registry does not have.  \<^verbatim>\<open>get_indicator_last_date\<close> does not:
  it never reads the registry, and its handler turns the missing key into null.
\<close>

theorem get_last_date_unknown_identifier_counterexample:
  "worksheet_properties 999 = None
   \<and> get_indicator_last_date \<lparr>sheets = Map.empty, metadata_dates = []\<rparr> 999 = Inr None"
  by (simp add: worksheet_properties_def get_indicator_last_date_def dict_getitem_def)

text \<open>
  Claim C9, amended.  For an identifier the registry does not have,
  \<^verbatim>\<open>write_records\<close> raises KeyError at its first statement, the workbook being
  unchanged (no sheet is created); \<^verbatim>\<open>get_indicator_last_date\<close> raises nothing and
  returns what the metadata dictionary holds for the identifier, null when it
  holds nothing.
\<close>

theorem unknown_identifier:
  assumes "worksheet_properties indicator_code = None"
  shows "IndicatorsWorkbook_write_records wb indicator_code records last_non_extended_date
           = Inl (KeyError, wb)
       \<and> get_indicator_last_date wb indicator_code
           = Inr (case map_of (metadata_dates wb) indicator_code of
                    None \<Rightarrow> None | Some lastest_date \<Rightarrow> lastest_date)"
  using assms
  by (simp add: IndicatorsWorkbook_write_records_def get_indicator_last_date_def
      dict_getitem_def split: option.splits)

theorem unknown_identifier_witness:
  "IndicatorsWorkbook_write_records example_workbook 7 [example_record] (Some (Date 2024 1 2))
     = Inl (KeyError, example_workbook)
   \<and> get_indicator_last_date example_workbook 7 = Inr None"
proof -
  have "worksheet_properties 7 = None"
    by (simp add: worksheet_properties_def)
  from unknown_identifier [OF this, of example_workbook "[example_record]" "Some (Date 2024 1 2)"]
  show ?thesis by (simp add: example_workbook_def)
qed

subsection \<open>Writing cells\<close>

text \<open>The cells and the dimensions of a sheet after each of the writing loops.\<close>

lemma cells_set_cell [simp]:
  "cells (set_cell ws r c v) p = (if p = (r, c) then v else cells ws p)"
  by (simp add: set_cell_def)

lemma max_row_set_cell [simp]: "max_row (set_cell ws r c v) = max (max_row ws) r"
  by (simp add: set_cell_def)

lemma max_column_set_cell [simp]: "max_column (set_cell ws r c v) = max (max_column ws) c"
  by (simp add: set_cell_def)

lemma cells_write_cells:
  "cells (write_cells ws r c vs) (r', c') =
     (if r' = r \<and> c \<le> c' \<and> c' < c + length vs then vs ! (c' - c) else cells ws (r', c'))"
proof (induction vs arbitrary: ws c)
  case Nil
  then show ?case by auto
next
  case (Cons v vs)
  have "cells (write_cells ws r c (v # vs)) (r', c') =
        cells (write_cells (set_cell ws r c v) r (Suc c) vs) (r', c')"
    by simp
  also have "\<dots> = (if r' = r \<and> Suc c \<le> c' \<and> c' < Suc c + length vs then vs ! (c' - Suc c)
                   else cells (set_cell ws r c v) (r', c'))"
    by (rule Cons.IH)
  also have "\<dots> = (if r' = r \<and> c \<le> c' \<and> c' < c + length (v # vs) then (v # vs) ! (c' - c)
                   else cells ws (r', c'))"
    by (auto simp: nth_Cons' Suc_diff_le)
  finally show ?case .
qed

lemma max_row_write_cells:
  "max_row (write_cells ws r c vs) = (if vs = [] then max_row ws else max (max_row ws) r)"
  by (induction vs arbitrary: ws c) auto

lemma max_column_write_cells:
  "max_column (write_cells ws r c vs) =
     (if vs = [] then max_column ws else max (max_column ws) (c + length vs - 1))"
  by (induction vs arbitrary: ws c) auto

lemma cells_write_items:
  "cells (write_items ws k xs) (r, c) =
     (if k \<le> r \<and> r < k + length xs \<and> c = 1 then VInt (fst (xs ! (r - k)))
      else if k \<le> r \<and> r < k + length xs \<and> c = 2 then date_cell (snd (xs ! (r - k)))
      else cells ws (r, c))"
proof (induction xs arbitrary: ws k)
  case Nil
  then show ?case by auto
next
  case (Cons x xs)
  obtain i d where x: "x = (i, d)" by (cases x)
  let ?ws = "set_cell (set_cell ws k 1 (VInt i)) k 2 (date_cell d)"
  have "cells (write_items ws k (x # xs)) (r, c) = cells (write_items ?ws (Suc k) xs) (r, c)"
    by (simp add: x)
  also have "\<dots> =
     (if Suc k \<le> r \<and> r < Suc k + length xs \<and> c = 1 then VInt (fst (xs ! (r - Suc k)))
      else if Suc k \<le> r \<and> r < Suc k + length xs \<and> c = 2 then date_cell (snd (xs ! (r - Suc k)))
      else cells ?ws (r, c))"
    by (rule Cons.IH)
  also have "\<dots> =
     (if k \<le> r \<and> r < k + length (x # xs) \<and> c = 1 then VInt (fst ((x # xs) ! (r - k)))
      else if k \<le> r \<and> r < k + length (x # xs) \<and> c = 2
        then date_cell (snd ((x # xs) ! (r - k)))
      else cells ws (r, c))"
    by (auto simp: x nth_Cons' Suc_diff_le)
  finally show ?case .
qed

lemma max_row_write_items:
  "max_row (write_items ws k xs) =
     (if xs = [] then max_row ws else max (max_row ws) (k + length xs - 1))"
  by (induction xs arbitrary: ws k) auto

lemma max_column_write_items:
  "max_column (write_items ws k xs) =
     (if xs = [] then max_column ws else max (max_column ws) 2)"
  by (induction xs arbitrary: ws k) auto

subsection \<open>Loading the metadata sheet\<close>

text \<open>
  The scan of \<^verbatim>\<open>_get_indicator_last_date\<close> over rows whose identifier cell either
  parses or raises TypeError: it raises nothing, an identifier no row holds
  keeps what the dictionary had, and an identifier some row holds gets the date
  of the topmost such row (the last one the scan assigns).
\<close>

lemma py_int_TypeError_iff:
  "py_int v = Inl TypeError \<longleftrightarrow> v = VNone \<or> (\<exists>d. v = VDate d)"
  by (cases v) (auto simp: int_of_string_def Let_def split: option.splits)

text \<open>
  Texts as \<^verbatim>\<open>int\<close> reads them: whitespace and a sign around digits, single
  underscores between digits; the no-break space and the next-line character
  are stripped, the separator 0x1C is not.
\<close>

lemma py_int_text:
  "py_int (VStr '' +1_1 '') = Inr 11"
  "py_int (VStr [CHR 0xA0, CHR ''1'', CHR ''1'', CHR 0x85]) = Inr 11"
  "py_int (VStr [CHR 0x1C, CHR ''1'', CHR ''1'']) = Inl ValueError"
  "py_int (VStr ''1__1'') = Inl ValueError"
  "py_int (VStr ''- 1'') = Inl ValueError"
  "py_int (VStr '''') = Inl ValueError"
  by (simp_all add: int_of_string_def strip_def is_space_def is_digit_def digit_value_def)

lemma last_date_of_cell_eq:
  "last_date_of_cell v = Inr (case v of VDate d \<Rightarrow> Some d | _ \<Rightarrow> None)"
  by (cases v) (simp_all add: last_date_of_cell_def)

lemma scan_indicators_Suc:
  "2 \<le> Suc n \<Longrightarrow> py_int (cells ws (Suc n, 1)) = Inl TypeError \<Longrightarrow>
     scan_indicators ws (Suc n) acc = scan_indicators ws n acc"
  "2 \<le> Suc n \<Longrightarrow> py_int (cells ws (Suc n, 1)) = Inr cod \<Longrightarrow>
     scan_indicators ws (Suc n) acc =
       scan_indicators ws n
         (AList.update cod (case cells ws (Suc n, 2) of VDate d \<Rightarrow> Some d | _ \<Rightarrow> None) acc)"
  by (simp_all add: last_date_of_cell_eq)

lemma scan_indicators_lookup:
  assumes "\<forall>r. 2 \<le> r \<and> r \<le> n \<longrightarrow>
             py_int (cells ws (r, 1)) = Inl TypeError \<or> (\<exists>k. py_int (cells ws (r, 1)) = Inr k)"
  shows "\<exists>m. scan_indicators ws n acc = Inr m
      \<and> (\<forall>k. (\<forall>r. 2 \<le> r \<and> r \<le> n \<longrightarrow> py_int (cells ws (r, 1)) \<noteq> Inr k)
             \<longrightarrow> map_of m k = map_of acc k)
      \<and> (\<forall>k r. 2 \<le> r \<and> r \<le> n \<and> py_int (cells ws (r, 1)) = Inr k
               \<and> (\<forall>r'. 2 \<le> r' \<and> r' < r \<longrightarrow> py_int (cells ws (r', 1)) \<noteq> Inr k)
             \<longrightarrow> map_of m k = Some (case cells ws (r, 2) of VDate d \<Rightarrow> Some d | _ \<Rightarrow> None))"
  using assms
proof (induction n arbitrary: acc)
  case 0
  then show ?case by simp
next
  case (Suc n)
  have rows: "\<forall>r. 2 \<le> r \<and> r \<le> n \<longrightarrow>
             py_int (cells ws (r, 1)) = Inl TypeError \<or> (\<exists>k. py_int (cells ws (r, 1)) = Inr k)"
    using Suc.prems by simp
  show ?case
  proof (cases "2 \<le> Suc n")
    case False
    then show ?thesis by auto
  next
    case True
    with Suc.prems
    consider (skip) "py_int (cells ws (Suc n, 1)) = Inl TypeError"
      | (cod) cod where "py_int (cells ws (Suc n, 1)) = Inr cod"
      by blast
    then show ?thesis
    proof cases
      case skip
      from Suc.IH [OF rows, of acc] obtain m where m: "scan_indicators ws n acc = Inr m"
        "\<forall>k. (\<forall>r. 2 \<le> r \<and> r \<le> n \<longrightarrow> py_int (cells ws (r, 1)) \<noteq> Inr k)
             \<longrightarrow> map_of m k = map_of acc k"
        "\<forall>k r. 2 \<le> r \<and> r \<le> n \<and> py_int (cells ws (r, 1)) = Inr k
               \<and> (\<forall>r'. 2 \<le> r' \<and> r' < r \<longrightarrow> py_int (cells ws (r', 1)) \<noteq> Inr k)
             \<longrightarrow> map_of m k = Some (case cells ws (r, 2) of VDate d \<Rightarrow> Some d | _ \<Rightarrow> None)"
        by blast
      have a: "map_of m k = map_of acc k"
        if "\<forall>r. 2 \<le> r \<and> r \<le> Suc n \<longrightarrow> py_int (cells ws (r, 1)) \<noteq> Inr k" for k
        using that m(2) by simp
      have b: "map_of m k = Some (case cells ws (r, 2) of VDate d \<Rightarrow> Some d | _ \<Rightarrow> None)"
        if "2 \<le> r" "r \<le> Suc n" "py_int (cells ws (r, 1)) = Inr k"
          "\<forall>r'. 2 \<le> r' \<and> r' < r \<longrightarrow> py_int (cells ws (r', 1)) \<noteq> Inr k" for k r
      proof -
        from that(3) skip have "r \<noteq> Suc n" by auto
        with that(2) have "r \<le> n" by simp
        with that m(3) show ?thesis by blast
      qed
      from m(1) a b show ?thesis
        unfolding scan_indicators_Suc(1) [OF True skip] by blast
    next
      case cod
      let ?d = "case cells ws (Suc n, 2) of VDate d \<Rightarrow> Some d | _ \<Rightarrow> None"
      let ?acc = "AList.update cod ?d acc"
      from Suc.IH [OF rows, of ?acc] obtain m where m: "scan_indicators ws n ?acc = Inr m"
        "\<forall>k. (\<forall>r. 2 \<le> r \<and> r \<le> n \<longrightarrow> py_int (cells ws (r, 1)) \<noteq> Inr k)
             \<longrightarrow> map_of m k = map_of ?acc k"
        "\<forall>k r. 2 \<le> r \<and> r \<le> n \<and> py_int (cells ws (r, 1)) = Inr k
               \<and> (\<forall>r'. 2 \<le> r' \<and> r' < r \<longrightarrow> py_int (cells ws (r', 1)) \<noteq> Inr k)
             \<longrightarrow> map_of m k = Some (case cells ws (r, 2) of VDate d \<Rightarrow> Some d | _ \<Rightarrow> None)"
        by blast
      have a: "map_of m k = map_of acc k"
        if k: "\<forall>r. 2 \<le> r \<and> r \<le> Suc n \<longrightarrow> py_int (cells ws (r, 1)) \<noteq> Inr k" for k
      proof -
        from k True cod have "k \<noteq> cod" by auto
        moreover from k m(2) have "map_of m k = map_of ?acc k" by simp
        ultimately show ?thesis by (simp add: update_conv)
      qed
      have b: "map_of m k = Some (case cells ws (r, 2) of VDate d \<Rightarrow> Some d | _ \<Rightarrow> None)"
        if "2 \<le> r" "r \<le> Suc n" "py_int (cells ws (r, 1)) = Inr k"
          "\<forall>r'. 2 \<le> r' \<and> r' < r \<longrightarrow> py_int (cells ws (r', 1)) \<noteq> Inr k" for k r
      proof (cases "r = Suc n")
        case False
        with that(2) have "r \<le> n" by simp
        with that m(3) show ?thesis by blast
      next
        case top: True
        with that(3) cod have "k = cod" by simp
        from that(4) top have "\<forall>r'. 2 \<le> r' \<and> r' \<le> n \<longrightarrow> py_int (cells ws (r', 1)) \<noteq> Inr k"
          by auto
        with m(2) have "map_of m k = map_of ?acc k" by blast
        with \<open>k = cod\<close> top show ?thesis by (simp add: update_conv)
      qed
      from m(1) a b show ?thesis
        unfolding scan_indicators_Suc(2) [OF True cod] by blast
    qed
  qed
qed

lemma scan_indicators_rows_ok:
  "scan_indicators ws n acc = Inr m \<Longrightarrow> 2 \<le> r \<Longrightarrow> r \<le> n \<Longrightarrow>
     py_int (cells ws (r, 1)) = Inl TypeError \<or> (\<exists>k. py_int (cells ws (r, 1)) = Inr k)"
proof (induction n arbitrary: acc)
  case 0
  then show ?case by simp
next
  case (Suc n)
  show ?case
  proof (cases "r = Suc n")
    case True
    with Suc.prems show ?thesis
      by (cases "py_int (cells ws (Suc n, 1))") (auto split: if_splits)
  next
    case False
    with Suc.prems have r: "r \<le> n" by simp
    from Suc.prems(1,2) r obtain acc' where "scan_indicators ws n acc' = Inr m"
      by (cases "py_int (cells ws (Suc n, 1))")
         (auto simp: last_date_of_cell_eq split: if_splits)
    from Suc.IH [OF this Suc.prems(2) r] show ?thesis .
  qed
qed

lemma cells_MetadataWriter_write_headers:
  "2 \<le> r \<Longrightarrow> cells (MetadataWriter_write_headers ws) (r, c) = cells ws (r, c)"
  by (simp add: MetadataWriter_write_headers_def cells_write_cells)

lemma max_row_MetadataWriter_write_headers:
  "max_row (MetadataWriter_write_headers ws) = max (max_row ws) 1"
  by (simp add: MetadataWriter_write_headers_def max_row_write_cells)

lemma MetadataWriter_init_lookup:
  assumes "\<forall>r. 2 \<le> r \<and> r \<le> max_row ws \<longrightarrow>
             py_int (cells ws (r, 1)) = Inl TypeError \<or> (\<exists>k. py_int (cells ws (r, 1)) = Inr k)"
  shows "\<exists>mw. MetadataWriter_init ws = Inr mw
      \<and> worksheet mw = MetadataWriter_write_headers ws
      \<and> (\<forall>k. (\<forall>r. 2 \<le> r \<and> r \<le> max_row ws \<longrightarrow> py_int (cells ws (r, 1)) \<noteq> Inr k)
             \<longrightarrow> map_of (indicators_dates mw) k = None)
      \<and> (\<forall>k r. 2 \<le> r \<and> r \<le> max_row ws \<and> py_int (cells ws (r, 1)) = Inr k
               \<and> (\<forall>r'. 2 \<le> r' \<and> r' < r \<longrightarrow> py_int (cells ws (r', 1)) \<noteq> Inr k)
             \<longrightarrow> map_of (indicators_dates mw) k
                   = Some (case cells ws (r, 2) of VDate d \<Rightarrow> Some d | _ \<Rightarrow> None))"
proof -
  let ?ws = "MetadataWriter_write_headers ws"
  have same: "\<And>r c. 2 \<le> r \<Longrightarrow> cells ?ws (r, c) = cells ws (r, c)"
    by (rule cells_MetadataWriter_write_headers)
  have "\<forall>r. 2 \<le> r \<and> r \<le> max_row ?ws \<longrightarrow>
          py_int (cells ?ws (r, 1)) = Inl TypeError \<or> (\<exists>k. py_int (cells ?ws (r, 1)) = Inr k)"
    using assms by (auto simp: same max_row_MetadataWriter_write_headers)
  from scan_indicators_lookup [OF this, of "[]"]
  obtain m where m: "scan_indicators ?ws (max_row ?ws) [] = Inr m"
    "\<forall>k. (\<forall>r. 2 \<le> r \<and> r \<le> max_row ?ws \<longrightarrow> py_int (cells ?ws (r, 1)) \<noteq> Inr k)
         \<longrightarrow> map_of m k = map_of [] k"
    "\<forall>k r. 2 \<le> r \<and> r \<le> max_row ?ws \<and> py_int (cells ?ws (r, 1)) = Inr k
           \<and> (\<forall>r'. 2 \<le> r' \<and> r' < r \<longrightarrow> py_int (cells ?ws (r', 1)) \<noteq> Inr k)
         \<longrightarrow> map_of m k = Some (case cells ?ws (r, 2) of VDate d \<Rightarrow> Some d | _ \<Rightarrow> None)"
    by blast
  have init: "MetadataWriter_init ws = Inr \<lparr>worksheet = ?ws, indicators_dates = m\<rparr>"
    by (simp add: MetadataWriter_init_def get_indicator_last_date_rows_def m(1))
  have a: "map_of m k = None"
    if "\<forall>r. 2 \<le> r \<and> r \<le> max_row ws \<longrightarrow> py_int (cells ws (r, 1)) \<noteq> Inr k" for k
  proof -
    from that have "\<forall>r. 2 \<le> r \<and> r \<le> max_row ?ws \<longrightarrow> py_int (cells ?ws (r, 1)) \<noteq> Inr k"
      by (auto simp: same max_row_MetadataWriter_write_headers)
    with m(2) show ?thesis by simp
  qed
  have b: "map_of m k = Some (case cells ws (r, 2) of VDate d \<Rightarrow> Some d | _ \<Rightarrow> None)"
    if "2 \<le> r" "r \<le> max_row ws" "py_int (cells ws (r, 1)) = Inr k"
      "\<forall>r'. 2 \<le> r' \<and> r' < r \<longrightarrow> py_int (cells ws (r', 1)) \<noteq> Inr k" for k r
  proof -
    from that have "2 \<le> r \<and> r \<le> max_row ?ws \<and> py_int (cells ?ws (r, 1)) = Inr k
           \<and> (\<forall>r'. 2 \<le> r' \<and> r' < r \<longrightarrow> py_int (cells ?ws (r', 1)) \<noteq> Inr k)"
      by (auto simp: same max_row_MetadataWriter_write_headers)
    with m(3) have "map_of m k = Some (case cells ?ws (r, 2) of VDate d \<Rightarrow> Some d | _ \<Rightarrow> None)"
      by blast
    with that(1) show ?thesis by (simp add: same)
  qed
  from init a b show ?thesis by simp
qed

text \<open>
  Claim C7 says that every row whose identifier cell does not parse as an
  integer is skipped.  The code skips on TypeError only: a text that is no
  number makes \<^verbatim>\<open>int\<close> raise ValueError, which nothing catches, and the
  construction of the store fails.
\<close>

theorem metadata_text_identifier_counterexample:
  "py_int (VStr ''abc'') = Inl ValueError
   \<and> isl (MetadataWriter_init text_identifier_sheet)
   \<and> fst (projl (MetadataWriter_init text_identifier_sheet)) = ValueError"
proof -
  have abc: "py_int (VStr ''abc'') = Inl ValueError"
    by (simp add: int_of_string_def strip_def is_space_def is_digit_def)
  have "max_row (MetadataWriter_write_headers text_identifier_sheet) = Suc (Suc 0)"
    by (simp add: max_row_MetadataWriter_write_headers text_identifier_sheet_def)
  moreover have "cells (MetadataWriter_write_headers text_identifier_sheet) (Suc (Suc 0), 1)
      = VStr ''abc''"
    by (simp add: cells_MetadataWriter_write_headers text_identifier_sheet_def)
  ultimately have "MetadataWriter_init text_identifier_sheet
      = Inl (ValueError, MetadataWriter_write_headers text_identifier_sheet)"
    using abc by (simp add: MetadataWriter_init_def get_indicator_last_date_rows_def)
  with abc show ?thesis by simp
qed

text \<open>
  Claim C7, amended.  When every identifier cell of rows 2 to \<open>max_row\<close> is empty,
  a date, or parses as an integer, the store is constructed without raising.
  Rows whose identifier cell is empty or a date are skipped: an identifier that
  no row holds is absent from the store.  An identifier that parses is mapped to
  the date cell of the topmost row holding it, and to null when that cell is
  not a date (empty, a number or a text).  So a row with identifier 11 and an
  empty date cell loads as null for 11.
\<close>

theorem metadata_load_tolerance:
  assumes "\<forall>r. 2 \<le> r \<and> r \<le> max_row ws \<longrightarrow>
             cells ws (r, 1) = VNone \<or> (\<exists>d. cells ws (r, 1) = VDate d)
             \<or> (\<exists>k. py_int (cells ws (r, 1)) = Inr k)"
  shows "\<exists>mw. MetadataWriter_init ws = Inr mw
      \<and> (\<forall>k. (\<forall>r. 2 \<le> r \<and> r \<le> max_row ws \<longrightarrow> py_int (cells ws (r, 1)) \<noteq> Inr k)
             \<longrightarrow> map_of (indicators_dates mw) k = None)
      \<and> (\<forall>k r. 2 \<le> r \<and> r \<le> max_row ws \<and> py_int (cells ws (r, 1)) = Inr k
               \<and> (\<forall>r'. 2 \<le> r' \<and> r' < r \<longrightarrow> py_int (cells ws (r', 1)) \<noteq> Inr k)
             \<longrightarrow> map_of (indicators_dates mw) k
                   = Some (case cells ws (r, 2) of VDate d \<Rightarrow> Some d | _ \<Rightarrow> None))"
proof -
  from assms have "\<forall>r. 2 \<le> r \<and> r \<le> max_row ws \<longrightarrow>
             py_int (cells ws (r, 1)) = Inl TypeError \<or> (\<exists>k. py_int (cells ws (r, 1)) = Inr k)"
    by (simp add: py_int_TypeError_iff)
  from MetadataWriter_init_lookup [OF this] show ?thesis by blast
qed

theorem metadata_load_tolerance_witness:
  "\<exists>mw. MetadataWriter_init example_metadata_sheet = Inr mw
      \<and> map_of (indicators_dates mw) 11 = Some None
      \<and> map_of (indicators_dates mw) 12 = None"
proof -
  have rows: "r = 2 \<or> r = 3" if "2 \<le> r" "r \<le> max_row example_metadata_sheet" for r
    using that by (auto simp: example_metadata_sheet_def)
  have hyp: "\<forall>r. 2 \<le> r \<and> r \<le> max_row example_metadata_sheet \<longrightarrow>
             cells example_metadata_sheet (r, 1) = VNone
             \<or> (\<exists>d. cells example_metadata_sheet (r, 1) = VDate d)
             \<or> (\<exists>k. py_int (cells example_metadata_sheet (r, 1)) = Inr k)"
  proof (intro allI impI)
    fix r assume "2 \<le> r \<and> r \<le> max_row example_metadata_sheet"
    then have "r = 2 \<or> r = 3" using rows by blast
    then show "cells example_metadata_sheet (r, 1) = VNone
             \<or> (\<exists>d. cells example_metadata_sheet (r, 1) = VDate d)
             \<or> (\<exists>k. py_int (cells example_metadata_sheet (r, 1)) = Inr k)"
      by (auto simp: example_metadata_sheet_def)
  qed
  from metadata_load_tolerance [OF hyp] obtain mw where
    mw: "MetadataWriter_init example_metadata_sheet = Inr mw"
    and none: "\<forall>k. (\<forall>r. 2 \<le> r \<and> r \<le> max_row example_metadata_sheet
                     \<longrightarrow> py_int (cells example_metadata_sheet (r, 1)) \<noteq> Inr k)
             \<longrightarrow> map_of (indicators_dates mw) k = None"
    and some: "\<forall>k r. 2 \<le> r \<and> r \<le> max_row example_metadata_sheet
               \<and> py_int (cells example_metadata_sheet (r, 1)) = Inr k
               \<and> (\<forall>r'. 2 \<le> r' \<and> r' < r \<longrightarrow> py_int (cells example_metadata_sheet (r', 1)) \<noteq> Inr k)
             \<longrightarrow> map_of (indicators_dates mw) k
                   = Some (case cells example_metadata_sheet (r, 2) of
                             VDate d \<Rightarrow> Some d | _ \<Rightarrow> None)"
    by blast
  have "map_of (indicators_dates mw) 11 = Some None"
    using some [rule_format, of 2 11] by (auto simp: example_metadata_sheet_def)
  moreover have "map_of (indicators_dates mw) 12 = None"
  proof -
    have "\<forall>r. 2 \<le> r \<and> r \<le> max_row example_metadata_sheet
             \<longrightarrow> py_int (cells example_metadata_sheet (r, 1)) \<noteq> Inr 12"
    proof (intro allI impI)
      fix r assume "2 \<le> r \<and> r \<le> max_row example_metadata_sheet"
      then have "r = 2 \<or> r = 3" using rows by blast
      then show "py_int (cells example_metadata_sheet (r, 1)) \<noteq> Inr 12"
        by (auto simp: example_metadata_sheet_def)
    qed
    with none show ?thesis by blast
  qed
  ultimately show ?thesis using mw by blast
qed

subsection \<open>Flushing the metadata\<close>

lemma sorted_items_facts:
  "set (sorted_items d) = set d"
  "length (sorted_items d) = length d"
  "sorted (map fst (sorted_items d))"
  by (simp_all add: sorted_items_def)

lemma distinct_sorted_items:
  assumes "distinct (map fst d)"
  shows "distinct (map fst (sorted_items d))"
proof -
  have "card (set (map fst (sorted_items d))) = card (set (map fst d))"
    by (simp add: sorted_items_facts)
  also have "\<dots> = length (map fst d)"
    using assms by (rule distinct_card)
  also have "\<dots> = length (map fst (sorted_items d))"
    by (simp add: sorted_items_facts)
  finally show ?thesis by (rule card_distinct)
qed

text \<open>
  Claim C8 says that the flush overwrites the whole data region, so that no row
  of a previous, larger content survives beyond the rows written from the
  dictionary.  \<^verbatim>\<open>write_indicators_last_date\<close> erases nothing.  A sheet whose rows
  2 and 3 both hold the identifier 11 loads as a dictionary of one entry; the
  flush writes row 2, and row 3 still holds what it held.
\<close>

theorem flush_leaves_stale_row_counterexample:
  "\<not> isl (MetadataWriter_init repeated_identifier_sheet)
   \<and> sorted_items (indicators_dates (projr (MetadataWriter_init repeated_identifier_sheet)))
       = [(11, Some (Date 2024 1 2))]
   \<and> cells (worksheet (write_indicators_last_date
        (projr (MetadataWriter_init repeated_identifier_sheet)))) (3, 1) = VInt 11
   \<and> cells (worksheet (write_indicators_last_date
        (projr (MetadataWriter_init repeated_identifier_sheet)))) (3, 2) = VDate (Date 2024 1 3)"
proof -
  let ?ws = "MetadataWriter_write_headers repeated_identifier_sheet"
  have mr: "max_row ?ws = Suc (Suc (Suc 0))"
    by (simp add: max_row_MetadataWriter_write_headers repeated_identifier_sheet_def)
  have c: "cells ?ws (Suc (Suc (Suc 0)), Suc 0) = VInt 11"
    "cells ?ws (Suc (Suc (Suc 0)), 2) = VDate (Date 2024 1 3)"
    "cells ?ws (Suc (Suc 0), Suc 0) = VInt 11"
    "cells ?ws (Suc (Suc 0), 2) = VDate (Date 2024 1 2)"
    by (simp_all add: cells_MetadataWriter_write_headers repeated_identifier_sheet_def)
  have init: "MetadataWriter_init repeated_identifier_sheet
      = Inr \<lparr>worksheet = ?ws, indicators_dates = [(11, Some (Date 2024 1 2))]\<rparr>"
    by (simp add: MetadataWriter_init_def get_indicator_last_date_rows_def mr c
        last_date_of_cell_def Let_def)
  have stale: "cells (write_items ?ws 2 [(11, Some (Date 2024 1 2))]) (3, c) = cells ?ws (3, c)"
    for c
    by (simp add: cells_write_items)
  have old: "cells ?ws (3, Suc 0) = VInt 11" "cells ?ws (3, 2) = VDate (Date 2024 1 3)"
    by (simp_all add: cells_MetadataWriter_write_headers repeated_identifier_sheet_def)
  show ?thesis
    by (simp add: init sorted_items_def write_indicators_last_date_def stale old)
qed

text \<open>
  Claim C8, amended.  The flush writes the dictionary's items in ascending order
  of identifier, one per row from row 2 on: the identifier in column 1 and the
  date (or null) in column 2 of rows 2 to \<open>n + 1\<close>, \<open>n\<close> being the number of
  items.  Every other cell of the sheet, the rows beyond \<open>n + 1\<close> among them,
  is left as it was, and the dictionary is unchanged.
\<close>

theorem flush_writes_sorted_rows:
  assumes "distinct (map fst (indicators_dates mw))"
  shows "sorted_wrt (<) (map fst (sorted_items (indicators_dates mw)))
       \<and> set (sorted_items (indicators_dates mw)) = set (indicators_dates mw)
       \<and> length (sorted_items (indicators_dates mw)) = length (indicators_dates mw)
       \<and> (\<forall>i. i < length (indicators_dates mw) \<longrightarrow>
             cells (worksheet (write_indicators_last_date mw)) (2 + i, 1)
               = VInt (fst (sorted_items (indicators_dates mw) ! i))
           \<and> cells (worksheet (write_indicators_last_date mw)) (2 + i, 2)
               = date_cell (snd (sorted_items (indicators_dates mw) ! i)))
       \<and> (\<forall>r c. \<not> (2 \<le> r \<and> r < 2 + length (indicators_dates mw) \<and> (c = 1 \<or> c = 2)) \<longrightarrow>
             cells (worksheet (write_indicators_last_date mw)) (r, c)
               = cells (worksheet mw) (r, c))
       \<and> indicators_dates (write_indicators_last_date mw) = indicators_dates mw"
proof -
  let ?items = "sorted_items (indicators_dates mw)"
  have "sorted_wrt (<) (map fst ?items)"
    using assms by (simp add: strict_sorted_iff sorted_items_facts distinct_sorted_items)
  moreover have "cells (worksheet (write_indicators_last_date mw)) (2 + i, 1)
               = VInt (fst (?items ! i))
           \<and> cells (worksheet (write_indicators_last_date mw)) (2 + i, 2)
               = date_cell (snd (?items ! i))"
    if "i < length (indicators_dates mw)" for i
    using that
    by (simp add: write_indicators_last_date_def cells_write_items sorted_items_facts)
  moreover have "cells (worksheet (write_indicators_last_date mw)) (r, c)
               = cells (worksheet mw) (r, c)"
    if "\<not> (2 \<le> r \<and> r < 2 + length (indicators_dates mw) \<and> (c = 1 \<or> c = 2))" for r c
    using that
    by (auto simp: write_indicators_last_date_def cells_write_items sorted_items_facts)
  moreover have "indicators_dates (write_indicators_last_date mw) = indicators_dates mw"
    by (simp add: write_indicators_last_date_def)
  ultimately show ?thesis
    by (simp add: sorted_items_facts)
qed

theorem flush_writes_sorted_rows_witness:
  "cells (worksheet (write_indicators_last_date
      \<lparr>worksheet = repeated_identifier_sheet,
       indicators_dates = [(12, None), (11, Some (Date 2024 1 5))]\<rparr>)) (2, 1) = VInt 11
   \<and> cells (worksheet (write_indicators_last_date
      \<lparr>worksheet = repeated_identifier_sheet,
       indicators_dates = [(12, None), (11, Some (Date 2024 1 5))]\<rparr>)) (3, 1) = VInt 12
   \<and> cells (worksheet (write_indicators_last_date
      \<lparr>worksheet = repeated_identifier_sheet,
       indicators_dates = [(12, None), (11, Some (Date 2024 1 5))]\<rparr>)) (3, 2) = VNone"
proof -
  let ?mw = "\<lparr>worksheet = repeated_identifier_sheet,
       indicators_dates = [(12, None), (11, Some (Date 2024 1 5))]\<rparr>"
  have d: "distinct (map fst (indicators_dates ?mw))" by simp
  have items: "sorted_items [(12, None), (11, Some (Date 2024 1 5))]
      = [(11, Some (Date 2024 1 5)), (12, None)]"
    by (simp add: sorted_items_def)
  from flush_writes_sorted_rows [OF d]
  have rows: "\<forall>i. i < length (indicators_dates ?mw) \<longrightarrow>
             cells (worksheet (write_indicators_last_date ?mw)) (2 + i, 1)
               = VInt (fst (sorted_items (indicators_dates ?mw) ! i))
           \<and> cells (worksheet (write_indicators_last_date ?mw)) (2 + i, 2)
               = date_cell (snd (sorted_items (indicators_dates ?mw) ! i))"
    by blast
  from rows [rule_format, of 0] rows [rule_format, of 1] show ?thesis
    by (simp add: items date_cell_def)
qed

subsection \<open>The metadata round trip\<close>

text \<open>
  A store constructed from a sheet holds a sheet that loads, and a dictionary
  with distinct keys; \<^verbatim>\<open>d[k] = v\<close> keeps both.
\<close>

lemma scan_indicators_distinct:
  "scan_indicators ws n acc = Inr m \<Longrightarrow> distinct (map fst acc) \<Longrightarrow> distinct (map fst m)"
proof (induction n arbitrary: acc)
  case 0
  then show ?case by simp
next
  case (Suc n)
  show ?case
  proof (cases "py_int (cells ws (Suc n, 1))")
    case (Inl e)
    with Suc.prems Suc.IH show ?thesis
      by (auto split: if_splits)
  next
    case (Inr cod)
    with Suc.prems Suc.IH show ?thesis
      by (auto simp: last_date_of_cell_eq distinct_update split: if_splits)
  qed
qed

lemma constructed_store:
  assumes "MetadataWriter_init ws = Inr mw"
  shows "get_indicator_last_date_rows (worksheet mw) = Inr (indicators_dates mw)"
    and "distinct (map fst (indicators_dates mw))"
proof -
  from assms obtain d where d: "get_indicator_last_date_rows (MetadataWriter_write_headers ws) = Inr d"
    and mw: "mw = \<lparr>worksheet = MetadataWriter_write_headers ws, indicators_dates = d\<rparr>"
    by (auto simp: MetadataWriter_init_def Let_def split: sum.splits)
  from d mw show "get_indicator_last_date_rows (worksheet mw) = Inr (indicators_dates mw)"
    by simp
  from d have "distinct (map fst d)"
    unfolding get_indicator_last_date_rows_def by (rule scan_indicators_distinct) simp
  with mw show "distinct (map fst (indicators_dates mw))" by simp
qed

text \<open>
  Claim C6.  Take a metadata store whose sheet loads (as it did when the store
  was constructed from it) and whose dictionary has distinct keys.  Setting the
  entry of an identifier to a date, flushing, and constructing a new store from
  the flushed sheet succeeds, and the new store maps the identifier to that
  date: the lookup of the workbook returns it.
\<close>

theorem metadata_round_trip:
  assumes loaded: "get_indicator_last_date_rows (worksheet mw) = Inr d0"
      and keys: "distinct (map fst (indicators_dates mw))"
  shows "\<exists>mw2. MetadataWriter_init
                 (worksheet (write_indicators_last_date
                    (mw\<lparr>indicators_dates :=
                          AList.update indicator (Some last_date) (indicators_dates mw)\<rparr>)))
               = Inr mw2
             \<and> map_of (indicators_dates mw2) indicator = Some (Some last_date)
             \<and> get_indicator_last_date
                 \<lparr>sheets = ss, metadata_dates = indicators_dates mw2\<rparr> indicator
               = Inr (Some last_date)"
proof -
  let ?d = "AList.update indicator (Some last_date) (indicators_dates mw)"
  let ?items = "sorted_items ?d"
  let ?old = "worksheet mw"
  let ?ws = "write_items ?old 2 ?items"
  have flushed: "worksheet (write_indicators_last_date (mw\<lparr>indicators_dates := ?d\<rparr>)) = ?ws"
    by (simp add: write_indicators_last_date_def)
  have dist: "distinct (map fst ?items)"
    using keys by (simp add: distinct_sorted_items distinct_update)
  have "map_of ?d indicator = Some (Some last_date)"
    by (simp add: update_conv)
  then have "(indicator, Some last_date) \<in> set ?items"
    by (simp add: sorted_items_facts map_of_SomeD)
  then obtain i where i: "i < length ?items" "?items ! i = (indicator, Some last_date)"
    by (auto simp: in_set_conv_nth)
  have col1: "cells ?ws (2 + j, 1) = VInt (fst (?items ! j))" if "j < length ?items" for j
    using that by (simp add: cells_write_items)
  have beyond: "cells ?ws (r, 1) = cells ?old (r, 1)" if "2 + length ?items \<le> r" for r
    using that by (simp add: cells_write_items)
  have max: "max_row ?ws = max (max_row ?old) (Suc (length ?items))"
    using i(1) by (auto simp: max_row_write_items)
  have ok: "\<forall>r. 2 \<le> r \<and> r \<le> max_row ?ws \<longrightarrow>
             py_int (cells ?ws (r, 1)) = Inl TypeError \<or> (\<exists>k. py_int (cells ?ws (r, 1)) = Inr k)"
  proof (intro allI impI)
    fix r assume r: "2 \<le> r \<and> r \<le> max_row ?ws"
    show "py_int (cells ?ws (r, 1)) = Inl TypeError \<or> (\<exists>k. py_int (cells ?ws (r, 1)) = Inr k)"
    proof (cases "r < 2 + length ?items")
      case True
      with r have "r - 2 < length ?items" "r = 2 + (r - 2)" by auto
      with col1 [of "r - 2"] have "cells ?ws (r, 1) = VInt (fst (?items ! (r - 2)))" by simp
      then show ?thesis by simp
    next
      case False
      with r max have "r \<le> max_row ?old" by auto
      with loaded r have old: "py_int (cells ?old (r, 1)) = Inl TypeError
          \<or> (\<exists>k. py_int (cells ?old (r, 1)) = Inr k)"
        unfolding get_indicator_last_date_rows_def
        by (auto dest: scan_indicators_rows_ok)
      from False have "2 + length ?items \<le> r" by simp
      then have "cells ?ws (r, 1) = cells ?old (r, 1)" by (rule beyond)
      with old show ?thesis by simp
    qed
  qed
  from MetadataWriter_init_lookup [OF ok] obtain mw2 where
    mw2: "MetadataWriter_init ?ws = Inr mw2"
    and some: "\<forall>k r. 2 \<le> r \<and> r \<le> max_row ?ws \<and> py_int (cells ?ws (r, 1)) = Inr k
               \<and> (\<forall>r'. 2 \<le> r' \<and> r' < r \<longrightarrow> py_int (cells ?ws (r', 1)) \<noteq> Inr k)
             \<longrightarrow> map_of (indicators_dates mw2) k
                   = Some (case cells ?ws (r, 2) of VDate d \<Rightarrow> Some d | _ \<Rightarrow> None)"
    by blast
  have row: "py_int (cells ?ws (2 + i, 1)) = Inr indicator"
    using col1 [OF i(1)] i(2) by simp
  have date: "cells ?ws (2 + i, 2) = VDate last_date"
    using i by (simp add: cells_write_items date_cell_def)
  have above: "py_int (cells ?ws (r', 1)) \<noteq> Inr indicator" if "2 \<le> r'" "r' < 2 + i" for r'
  proof -
    from that i(1) have j: "r' - 2 < length ?items" "r' = 2 + (r' - 2)" "r' - 2 \<noteq> i" by auto
    with col1 [of "r' - 2"] have c: "cells ?ws (r', 1) = VInt (fst (?items ! (r' - 2)))" by simp
    have "fst (?items ! (r' - 2)) \<noteq> fst (?items ! i)"
      using dist j(1,3) i(1) by (auto simp: distinct_conv_nth)
    with c i(2) show ?thesis by simp
  qed
  have "2 + i \<le> max_row ?ws"
    using i(1) max by auto
  with some [rule_format, of "2 + i" indicator] row date above
  have lookup: "map_of (indicators_dates mw2) indicator = Some (Some last_date)"
    by simp
  then have "get_indicator_last_date
                 \<lparr>sheets = ss, metadata_dates = indicators_dates mw2\<rparr> indicator
               = Inr (Some last_date)"
    by (simp add: get_indicator_last_date_def dict_getitem_def)
  with mw2 lookup flushed show ?thesis by simp
qed

theorem metadata_round_trip_witness:
  "\<exists>mw mw2. MetadataWriter_init example_metadata_sheet = Inr mw
     \<and> MetadataWriter_init
         (worksheet (write_indicators_last_date
            (mw\<lparr>indicators_dates :=
                  AList.update 433 (Some (Date 2024 2 1)) (indicators_dates mw)\<rparr>)))
       = Inr mw2
     \<and> map_of (indicators_dates mw2) 433 = Some (Some (Date 2024 2 1))"
proof -
  have "\<not> isl (MetadataWriter_init example_metadata_sheet)"
  proof -
    let ?ws = "MetadataWriter_write_headers example_metadata_sheet"
    have "max_row ?ws = Suc (Suc (Suc 0))"
      by (simp add: max_row_MetadataWriter_write_headers example_metadata_sheet_def)
    moreover have "cells ?ws (Suc (Suc (Suc 0)), Suc 0) = VNone"
      "cells ?ws (Suc (Suc 0), Suc 0) = VInt 11"
      by (simp_all add: cells_MetadataWriter_write_headers example_metadata_sheet_def)
    ultimately show ?thesis
      by (simp add: MetadataWriter_init_def get_indicator_last_date_rows_def Let_def
          last_date_of_cell_eq)
  qed
  then obtain mw where mw: "MetadataWriter_init example_metadata_sheet = Inr mw"
    by (cases "MetadataWriter_init example_metadata_sheet") auto
  from metadata_round_trip [OF constructed_store [OF mw], of 433 "Date 2024 2 1" Map.empty] mw
  show ?thesis by blast
qed

subsection \<open>The row locator of the IPCA writer\<close>

text \<open>
  The same three cases for \<^verbatim>\<open>IpcaWriter._get_first_row\<close>, the date of a row being
  the first day of the month its year and month cells give.
\<close>

lemma ipca_scan_first_row_cases:
  assumes "\<forall>r. 2 \<le> r \<and> r \<le> n \<longrightarrow>
             date_of_cells (cells ws (r, 1)) (cells ws (r, 2)) = Inr (key r)"
  shows "(\<exists>k. 2 \<le> k \<and> k \<le> n \<and> key k = fd \<and> (\<forall>r. k < r \<and> r \<le> n \<longrightarrow> fd < key r)
            \<and> ipca_scan_first_row ws fd n = Inr k)
       \<or> (\<exists>k. 2 \<le> k \<and> k \<le> n \<and> key k < fd \<and> (\<forall>r. k < r \<and> r \<le> n \<longrightarrow> fd < key r)
            \<and> ipca_scan_first_row ws fd n = Inr (Suc k))
       \<or> ((\<forall>r. 2 \<le> r \<and> r \<le> n \<longrightarrow> fd < key r) \<and> ipca_scan_first_row ws fd n = Inr 1)"
  using assms
proof (induction n)
  case 0
  then show ?case by simp
next
  case (Suc n)
  show ?case
  proof (cases "Suc n < 2")
    case True
    then show ?thesis by auto
  next
    case False
    then have cell: "date_of_cells (cells ws (Suc n, 1)) (cells ws (Suc n, 2)) = Inr (key (Suc n))"
      using Suc.prems by simp
    consider (eq) "key (Suc n) = fd" | (lt) "key (Suc n) < fd" | (gt) "fd < key (Suc n)"
      using less_linear by blast
    then show ?thesis
    proof cases
      case eq
      with False cell show ?thesis by auto
    next
      case lt
      with False cell show ?thesis by auto
    next
      case gt
      have step: "ipca_scan_first_row ws fd (Suc n) = ipca_scan_first_row ws fd n"
        using False cell gt by auto
      have up: "\<And>r. r \<le> Suc n \<Longrightarrow> r \<le> n \<or> r = Suc n"
        by arith
      from Suc.IH Suc.prems
      have "(\<exists>k. 2 \<le> k \<and> k \<le> n \<and> key k = fd \<and> (\<forall>r. k < r \<and> r \<le> n \<longrightarrow> fd < key r)
            \<and> ipca_scan_first_row ws fd n = Inr k)
       \<or> (\<exists>k. 2 \<le> k \<and> k \<le> n \<and> key k < fd \<and> (\<forall>r. k < r \<and> r \<le> n \<longrightarrow> fd < key r)
            \<and> ipca_scan_first_row ws fd n = Inr (Suc k))
       \<or> ((\<forall>r. 2 \<le> r \<and> r \<le> n \<longrightarrow> fd < key r) \<and> ipca_scan_first_row ws fd n = Inr 1)"
        by simp
      then show ?thesis
        unfolding step using gt up
        by (elim disjE exE conjE) (metis le_SucI)+
    qed
  qed
qed

lemma date_of_cells_month:
  "1 \<le> y \<Longrightarrow> y \<le> 9999 \<Longrightarrow> 1 \<le> m \<Longrightarrow> m \<le> 12 \<Longrightarrow>
     date_of_cells (VInt y) (VInt m) = Inr (Date y m 1)"
  by (simp add: c_int_range_def)

text \<open>
  Claim C4 says that a first date anywhere in June 2023 is located at the row
  of (2023, 6).  The locator compares the first day of the row's month with the
  first date itself: for 15 June 2023 the row of (2023, 6), dated 1 June, is
  strictly earlier, and the locator returns the row after it.
\<close>

theorem ipca_first_row_day_counterexample:
  "cells example_ipca_sheet (3, 1) = VInt 2023
   \<and> cells example_ipca_sheet (3, 2) = VInt 6
   \<and> IpcaWriter_get_first_row example_ipca_sheet (Date 2023 6 15) = Inr 4"
proof -
  have "ipca_scan_first_row example_ipca_sheet (Date 2023 6 15) (Suc (Suc (Suc (Suc 0)))) = Inr 4"
    by (simp add: example_ipca_sheet_def c_int_range_def less_date_def)
  then show ?thesis
    by (simp add: IpcaWriter_get_first_row_def example_ipca_sheet_def eval_nat_numeral)
qed

text \<open>
  Claim C4, amended.  On an IPCA sheet whose rows 2 to \<open>max_row\<close> hold strictly
  ascending (year, month) pairs, with the row \<open>k\<close> holding (2023, 6): for the
  first date 1 June 2023 the locator returns \<open>k\<close>, so the merge overwrites that
  row; for any later day of June 2023 it returns \<open>k + 1\<close>, the row after it.
\<close>

theorem ipca_first_row_month:
  assumes rows: "\<forall>r. 2 \<le> r \<and> r \<le> max_row ws \<longrightarrow>
                   cells ws (r, 1) = VInt (y r) \<and> cells ws (r, 2) = VInt (m r)
                   \<and> 1 \<le> y r \<and> y r \<le> 9999 \<and> 1 \<le> m r \<and> m r \<le> 12"
      and ascending: "\<forall>r r'. 2 \<le> r \<and> r < r' \<and> r' \<le> max_row ws \<longrightarrow>
                   y r < y r' \<or> (y r = y r' \<and> m r < m r')"
      and row: "2 \<le> k" "k \<le> max_row ws" "y k = 2023" "m k = 6"
  shows "IpcaWriter_get_first_row ws (Date 2023 6 1) = Inr k
       \<and> (\<forall>d. 1 < d \<longrightarrow> IpcaWriter_get_first_row ws (Date 2023 6 d) = Inr (Suc k))"
proof -
  let ?n = "max_row ws"
  let ?key = "\<lambda>r. Date (y r) (m r) 1"
  have keys: "\<forall>r. 2 \<le> r \<and> r \<le> ?n \<longrightarrow>
             date_of_cells (cells ws (r, 1)) (cells ws (r, 2)) = Inr (?key r)"
  proof (intro allI impI)
    fix r assume "2 \<le> r \<and> r \<le> ?n"
    with rows have "cells ws (r, 1) = VInt (y r)" "cells ws (r, 2) = VInt (m r)"
      "1 \<le> y r" "y r \<le> 9999" "1 \<le> m r" "m r \<le> 12"
      by blast+
    then show "date_of_cells (cells ws (r, 1)) (cells ws (r, 2)) = Inr (?key r)"
      by (simp only: date_of_cells_month)
  qed
  have below: "?key r < ?key k" if "2 \<le> r" "r < k" for r
    using ascending [rule_format, of r k] that row by (auto simp: less_date_def)
  have above: "?key k < ?key r \<and> Date 2023 6 d < ?key r" if "k < r" "r \<le> ?n" for r d
    using ascending [rule_format, of k r] that row by (auto simp: less_date_def)
  have k: "?key k = Date 2023 6 1"
    using row by simp
  have first: "IpcaWriter_get_first_row ws (Date 2023 6 1) = Inr k"
  proof -
    from ipca_scan_first_row_cases [OF keys, of "Date 2023 6 1",
        folded IpcaWriter_get_first_row_def]
    show ?thesis
    proof (elim disjE exE conjE)
      fix j assume j: "2 \<le> j" "j \<le> ?n" "?key j = Date 2023 6 1"
        "IpcaWriter_get_first_row ws (Date 2023 6 1) = Inr j"
      have "j = k"
      proof (rule ccontr)
        assume "j \<noteq> k"
        then consider "j < k" | "k < j" by arith
        then show False
          using below [of j] above [of j 1] j k by cases auto
      qed
      with j show ?thesis by simp
    next
      fix j assume j: "2 \<le> j" "j \<le> ?n" "?key j < Date 2023 6 1"
        "\<forall>r. j < r \<and> r \<le> ?n \<longrightarrow> Date 2023 6 1 < ?key r"
      consider "j < k" | "j = k" | "k < j" by arith
      then show ?thesis
      proof cases
        case 1
        with j(4) row(2) have "Date 2023 6 1 < ?key k" by blast
        with k show ?thesis by simp
      next
        case 2
        with j(3) k show ?thesis by simp
      next
        case 3
        with above [of j 1] j(2,3) k show ?thesis by auto
      qed
    next
      assume "\<forall>r. 2 \<le> r \<and> r \<le> ?n \<longrightarrow> Date 2023 6 1 < ?key r"
      with row(1,2) have "Date 2023 6 1 < ?key k" by blast
      with k show ?thesis by simp
    qed
  qed
  have later: "IpcaWriter_get_first_row ws (Date 2023 6 d) = Inr (Suc k)" if d: "1 < d" for d
  proof -
    have kd: "?key k < Date 2023 6 d"
      using d row by (simp add: less_date_def)
    from ipca_scan_first_row_cases [OF keys, of "Date 2023 6 d",
        folded IpcaWriter_get_first_row_def]
    show ?thesis
    proof (elim disjE exE conjE)
      fix j assume "?key j = Date 2023 6 d"
      with d show ?thesis by simp
    next
      fix j assume j: "2 \<le> j" "j \<le> ?n" "?key j < Date 2023 6 d"
        "\<forall>r. j < r \<and> r \<le> ?n \<longrightarrow> Date 2023 6 d < ?key r"
        "IpcaWriter_get_first_row ws (Date 2023 6 d) = Inr (Suc j)"
      consider "j < k" | "j = k" | "k < j" by arith
      then show ?thesis
      proof cases
        case 1
        with j(4) row(2) have "Date 2023 6 d < ?key k" by blast
        with kd show ?thesis by simp
      next
        case 2
        with j(5) show ?thesis by simp
      next
        case 3
        with above [of j d] j(2,3) show ?thesis by auto
      qed
    next
      assume "\<forall>r. 2 \<le> r \<and> r \<le> ?n \<longrightarrow> Date 2023 6 d < ?key r"
      with row(1,2) have "Date 2023 6 d < ?key k" by blast
      with kd show ?thesis by simp
    qed
  qed
  from first later show ?thesis by blast
qed

lemma example_ipca_sheet_rows:
  "max_row example_ipca_sheet = 4"
  "2 \<le> r \<Longrightarrow> r \<le> 4 \<Longrightarrow> cells example_ipca_sheet (r, Suc 0) = VInt 2023"
  "2 \<le> r \<Longrightarrow> r \<le> 4 \<Longrightarrow> cells example_ipca_sheet (r, 2) = VInt (int r + 3)"
  by (simp_all add: example_ipca_sheet_def)

theorem ipca_first_row_month_witness:
  "IpcaWriter_get_first_row example_ipca_sheet (Date 2023 6 1) = Inr 3
   \<and> IpcaWriter_get_first_row example_ipca_sheet (Date 2023 6 2) = Inr 4"
proof -
  have rows: "\<forall>r. 2 \<le> r \<and> r \<le> max_row example_ipca_sheet \<longrightarrow>
                   cells example_ipca_sheet (r, 1) = VInt ((\<lambda>_. 2023) r)
                   \<and> cells example_ipca_sheet (r, 2) = VInt ((\<lambda>r. int r + 3) r)
                   \<and> 1 \<le> (\<lambda>_. 2023 :: int) r \<and> (\<lambda>_. 2023 :: int) r \<le> 9999
                   \<and> 1 \<le> (\<lambda>r. int r + 3) r \<and> (\<lambda>r. int r + 3) r \<le> 12"
    by (simp add: example_ipca_sheet_rows)
  have ascending: "\<forall>r r'. 2 \<le> r \<and> r < r' \<and> r' \<le> max_row example_ipca_sheet \<longrightarrow>
                   (\<lambda>_. 2023 :: int) r < (\<lambda>_. 2023) r'
                   \<or> ((\<lambda>_. 2023 :: int) r = (\<lambda>_. 2023) r' \<and> (\<lambda>r. int r + 3) r < (\<lambda>r. int r + 3) r')"
    by simp
  from ipca_first_row_month [OF rows ascending, of 3] show ?thesis
    by (simp add: example_ipca_sheet_rows)
qed

subsection \<open>The reconciling writer\<close>

text \<open>
  Every formatter gives three cells; the first is the record's date, or its year
  and month for IPCA.  The headers and the loop over the records fill three
  columns, and the erasure has nothing to do when the first row to erase is
  beyond the sheet.
\<close>

lemma length_get_headers: "length (get_headers w) = 3"
  by (cases w)
     (simp_all add: SelicWriter_get_headers_def CdiWriter_get_headers_def
        IpcaWriter_get_headers_def TrWriter_get_headers_def WorksheetWriter_get_headers_def)

lemma format_record_length: "format_record w record = Inr row \<Longrightarrow> length row = 3"
  by (cases w)
     (auto simp: SelicWriter_format_record_def CdiWriter_format_record_def
        IpcaWriter_format_record_def TrWriter_format_record_def Let_def split: sum.splits)

lemma format_record_date:
  "w \<noteq> IpcaWriter \<Longrightarrow> format_record w record = Inr row \<Longrightarrow> row ! 0 = VDate (date record)"
  by (cases w)
     (auto simp: SelicWriter_format_record_def CdiWriter_format_record_def
        TrWriter_format_record_def Let_def split: sum.splits)

lemma format_record_ipca:
  "format_record IpcaWriter record = Inr row \<Longrightarrow>
     row ! 0 = VInt (year (date record)) \<and> row ! 1 = VInt (month (date record))"
  by (auto simp: IpcaWriter_format_record_def)

lemma cells_write_headers:
  "cells (write_headers w ws) (r, c) =
     (if r = 1 \<and> 1 \<le> c \<and> c \<le> 3 then VStr (get_headers w ! (c - 1)) else cells ws (r, c))"
  using length_get_headers [of w]
  by (auto simp: write_headers_def cells_write_cells)

lemma max_row_write_headers: "max_row (write_headers w ws) = max (max_row ws) 1"
  using length_get_headers [of w]
  by (auto simp: write_headers_def max_row_write_cells)

lemma max_column_write_headers: "max_column (write_headers w ws) = max (max_column ws) 3"
  using length_get_headers [of w]
  by (auto simp: write_headers_def max_column_write_cells)

lemma erase_extra_records_nothing: "max_row ws < row \<Longrightarrow> erase_extra_records ws row = ws"
  by (simp add: erase_extra_records_def)

lemma write_rows_cells:
  assumes "list_all2 (\<lambda>record row. format_record w record = Inr row) records rows"
  shows "\<exists>ws'. write_rows w ws first_row records = Inr ws'
     \<and> (\<forall>r c. cells ws' (r, c) =
           (if first_row \<le> r \<and> r < first_row + length records \<and> 1 \<le> c \<and> c \<le> 3
            then rows ! (r - first_row) ! (c - 1) else cells ws (r, c)))
     \<and> max_row ws' =
         (if records = [] then max_row ws
          else max (max_row ws) (first_row + length records - 1))
     \<and> max_column ws' = (if records = [] then max_column ws else max (max_column ws) 3)"
  using assms
proof (induction records rows arbitrary: ws first_row rule: list_all2_induct)
  case Nil
  then show ?case by auto
next
  case (Cons x xs row rows)
  let ?ws = "write_cells ws first_row 1 row"
  have len: "length row = 3"
    using Cons.hyps(1) by (rule format_record_length)
  from Cons.IH [of ?ws "Suc first_row"] obtain ws' where
    ws': "write_rows w ?ws (Suc first_row) xs = Inr ws'"
    and cells': "\<forall>r c. cells ws' (r, c) =
           (if Suc first_row \<le> r \<and> r < Suc first_row + length xs \<and> 1 \<le> c \<and> c \<le> 3
            then rows ! (r - Suc first_row) ! (c - 1) else cells ?ws (r, c))"
    and mr: "max_row ws' =
         (if xs = [] then max_row ?ws
          else max (max_row ?ws) (Suc first_row + length xs - 1))"
    and mc: "max_column ws' = (if xs = [] then max_column ?ws else max (max_column ?ws) 3)"
    by blast
  have run: "write_rows w ws first_row (x # xs) = Inr ws'"
    using Cons.hyps(1) ws' by simp
  have a: "cells ws' (r, c) =
           (if first_row \<le> r \<and> r < first_row + length (x # xs) \<and> 1 \<le> c \<and> c \<le> 3
            then (row # rows) ! (r - first_row) ! (c - 1) else cells ws (r, c))" for r c
    using len by (auto simp: cells' cells_write_cells nth_Cons' Suc_diff_le)
  have nonempty: "row \<noteq> []"
    using len by auto
  have b: "max_row ws' = max (max_row ws) (first_row + length (x # xs) - 1)"
    using nonempty by (auto simp: mr max_row_write_cells)
  have c: "max_column ws' = max (max_column ws) 3"
    using nonempty len by (auto simp: mc max_column_write_cells)
  from run a b c show ?case by simp
qed

subsection \<open>Writing the same records twice\<close>


lemma located_row_cases:
  fixes res :: "error + nat" and key :: "nat \<Rightarrow> 'a::linorder"
  assumes first: "key 2 \<le> fd"
      and n: "2 \<le> n"
      and scan: "(\<exists>k. 2 \<le> k \<and> k \<le> n \<and> key k = fd
                    \<and> (\<forall>r. k < r \<and> r \<le> n \<longrightarrow> fd < key r) \<and> res = Inr k)
         \<or> (\<exists>k. 2 \<le> k \<and> k \<le> n \<and> key k < fd
                    \<and> (\<forall>r. k < r \<and> r \<le> n \<longrightarrow> fd < key r) \<and> res = Inr (Suc k))
         \<or> ((\<forall>r. 2 \<le> r \<and> r \<le> n \<longrightarrow> fd < key r) \<and> res = Inr 1)"
  shows "\<exists>L. res = Inr L \<and> 2 \<le> L
           \<and> (L = 2 \<longleftrightarrow> key 2 = fd \<and> (\<forall>r. 2 < r \<and> r \<le> n \<longrightarrow> fd < key r))"
proof -
  let ?good = "key 2 = fd \<and> (\<forall>r. 2 < r \<and> r \<le> n \<longrightarrow> fd < key r)"
  from scan show ?thesis
  proof (elim disjE exE conjE)
    fix k assume k: "2 \<le> k" "k \<le> n" "key k = fd"
      "\<forall>r. k < r \<and> r \<le> n \<longrightarrow> fd < key r" "res = Inr k"
    have "k = 2 \<longleftrightarrow> ?good"
    proof
      assume "k = 2"
      with k(3,4) show ?good by simp
    next
      assume good: ?good
      show "k = 2"
      proof (rule ccontr)
        assume "k \<noteq> 2"
        with k(1) have "2 < k" by simp
        with good k(2) have "fd < key k" by blast
        with k(3) show False by simp
      qed
    qed
    with k(1,5) show ?thesis by blast
  next
    fix k assume k: "2 \<le> k" "k \<le> n" "key k < fd" "res = Inr (Suc k)"
    have "\<not> ?good"
    proof
      assume good: ?good
      show False
      proof (cases "k = 2")
        case True
        with good k(3) show False by simp
      next
        case False
        with k(1) have "2 < k" by simp
        with good k(2) have "fd < key k" by blast
        with k(3) show False by simp
      qed
    qed
    moreover from k(1) have "2 \<le> Suc k" "Suc k \<noteq> 2" by simp_all
    ultimately show ?thesis using k(4) by blast
  next
    assume "\<forall>r. 2 \<le> r \<and> r \<le> n \<longrightarrow> fd < key r"
    with n have "fd < key 2" by blast
    with first show ?thesis by simp
  qed
qed

lemma first_of_month:
  "1 \<le> day d \<Longrightarrow> Date (year d) (month d) 1 \<le> d"
  "(Date (year d) (month d) 1 = d) = (day d = 1)"
  by (cases d; auto simp: less_eq_date_def less_date_def)+

lemma first_of_later_month:
  "d0 < d \<Longrightarrow> (year d, month d) \<noteq> (year d0, month d0) \<Longrightarrow> d0 < Date (year d) (month d) 1"
  by (cases d; cases d0) (auto simp: less_date_def)


lemma get_first_row_new_sheet: "get_first_row w new_sheet first_date = Inr 1"
  by (cases w)
     (simp_all add: WorksheetWriter_get_first_row_def IpcaWriter_get_first_row_def new_sheet_def)

lemma sheet_eqI:
  "cells a = cells b \<Longrightarrow> max_row a = max_row b \<Longrightarrow> max_column a = max_column b \<Longrightarrow>
     a = (b :: sheet)"
  by simp

lemma write_records_located:
  assumes "get_first_row w ws (date record0) = Inr located"
      and "write_rows w (if located = 1 then write_headers w ws else ws)
             (if located = 1 then 2 else located) (record0 # rest) = Inr ws2"
  shows "write_records w ws (record0 # rest)
           = Inr (erase_extra_records ws2
                    ((if located = 1 then 2 else located) + length (record0 # rest)))"
  using assms by (simp only: write_records_def list.case sum.case Let_def)

text \<open>
  Claim C5 says that writing a record set to an empty sheet and writing it again
  to the result gives the sheet of the single write, for every formatter.  An
  IPCA record dated 15 June 2023 is written to row 2 as (2023, 6); on the
  second write the locator builds 1 June 2023 from that row, finds it strictly
  earlier than 15 June and answers row 3: the record is written again below
  itself and the sheet has one row more.
\<close>

theorem write_twice_ipca_counterexample:
  "\<not> isl (write_records IpcaWriter new_sheet [mid_month_record])
   \<and> max_row (projr (write_records IpcaWriter new_sheet [mid_month_record])) = 2
   \<and> \<not> isl (write_records IpcaWriter
              (projr (write_records IpcaWriter new_sheet [mid_month_record])) [mid_month_record])
   \<and> max_row (projr (write_records IpcaWriter
              (projr (write_records IpcaWriter new_sheet [mid_month_record])) [mid_month_record])) = 3
   \<and> cells (projr (write_records IpcaWriter
              (projr (write_records IpcaWriter new_sheet [mid_month_record])) [mid_month_record]))
         (3, 2) = VInt 6
   \<and> cells (projr (write_records IpcaWriter new_sheet [mid_month_record])) (3, 2) = VNone"
proof -
  let ?row = "[VInt 2023, VInt 6, VDec (Dec 23 (- 2))]"
  have fmt: "list_all2 (\<lambda>record row. format_record IpcaWriter record = Inr row)
               [mid_month_record] [?row]"
    by (simp add: IpcaWriter_format_record_def mid_month_record_def)
  let ?wsh = "write_headers IpcaWriter new_sheet"
  from write_rows_cells [OF fmt, of ?wsh 2] obtain ws1 where
    run1: "write_rows IpcaWriter ?wsh 2 [mid_month_record] = Inr ws1"
    and cells1: "\<forall>r c. cells ws1 (r, c) =
           (if 2 \<le> r \<and> r < 2 + length [mid_month_record] \<and> 1 \<le> c \<and> c \<le> 3
            then [?row] ! (r - 2) ! (c - 1) else cells ?wsh (r, c))"
    and mr1: "max_row ws1 = max (max_row ?wsh) (2 + length [mid_month_record] - 1)"
    by auto
  have max_row1: "max_row ws1 = 2"
    by (simp add: mr1 max_row_write_headers new_sheet_def)
  have "write_rows IpcaWriter (if (1::nat) = 1 then ?wsh else new_sheet)
          (if (1::nat) = 1 then 2 else 1) [mid_month_record] = Inr ws1"
    using run1 by (simp only: if_True simp_thms)
  from write_records_located [OF get_first_row_new_sheet this]
  have first: "write_records IpcaWriter new_sheet [mid_month_record] = Inr ws1"
    by (simp add: erase_extra_records_nothing max_row1)
  have c21: "cells ws1 (2, Suc 0) = VInt 2023" and c22: "cells ws1 (2, 2) = VInt 6"
    and c32: "cells ws1 (3, 2) = VNone"
    by (simp_all add: cells1 cells_write_headers new_sheet_def)
  have "ipca_scan_first_row ws1 (Date 2023 6 15) (Suc (Suc 0)) = Inr 3"
    using c21 c22 by (simp add: c_int_range_def less_date_def numeral_2_eq_2)
  then have located: "get_first_row IpcaWriter ws1 (date mid_month_record) = Inr 3"
    by (simp add: IpcaWriter_get_first_row_def max_row1 mid_month_record_def numeral_2_eq_2)
  from write_rows_cells [OF fmt, of ws1 3] obtain ws2 where
    run2: "write_rows IpcaWriter ws1 3 [mid_month_record] = Inr ws2"
    and cells2: "\<forall>r c. cells ws2 (r, c) =
           (if 3 \<le> r \<and> r < 3 + length [mid_month_record] \<and> 1 \<le> c \<and> c \<le> 3
            then [?row] ! (r - 3) ! (c - 1) else cells ws1 (r, c))"
    and mr2: "max_row ws2 = max (max_row ws1) (3 + length [mid_month_record] - 1)"
    by auto
  have max_row2: "max_row ws2 = 3"
    by (simp add: mr2 max_row1)
  have "(3::nat) \<noteq> 1" by simp
  then have "write_rows IpcaWriter (if (3::nat) = 1 then write_headers IpcaWriter ws1 else ws1)
          (if (3::nat) = 1 then 2 else 3) [mid_month_record] = Inr ws2"
    using run2 by (simp only: if_False)
  from write_records_located [OF located this]
  have second: "write_records IpcaWriter ws1 [mid_month_record] = Inr ws2"
    by (simp add: erase_extra_records_nothing max_row2)
  have "cells ws2 (3, 2) = VInt 6"
    by (simp add: cells2)
  with first second max_row1 max_row2 c32 show ?thesis by simp
qed

text \<open>
  Claim C5, amended.  For records of strictly ascending dates that all format,
  the write to an empty sheet returns the headers of the writer in row 1, the
  formatted records in the rows from 2 on, and every other cell empty.  A
  second write of the same records succeeds, and it returns that sheet
  unchanged for the Selic, CDI and TR writers always, and for the IPCA writer
  exactly when the first record is dated on the first day of its month and no
  other record lies in that month.
\<close>

theorem write_twice_same_sheet:
  assumes nonempty: "records \<noteq> []"
      and ascending: "sorted_wrt (\<lambda>a b. date a < date b) records"
      and formatted: "list_all2 (\<lambda>record row. format_record w record = Inr row) records rows"
      and valid: "\<forall>record \<in> set records. valid_date (date record)"
  shows "\<exists>ws1 ws2. write_records w new_sheet records = Inr ws1
       \<and> max_row ws1 = Suc (length records)
       \<and> max_column ws1 = 3
       \<and> (\<forall>r c. cells ws1 (r, c) =
             (if r = 1 \<and> 1 \<le> c \<and> c \<le> 3 then VStr (get_headers w ! (c - 1))
              else if 2 \<le> r \<and> r \<le> Suc (length records) \<and> 1 \<le> c \<and> c \<le> 3
                then rows ! (r - 2) ! (c - 1)
              else VNone))
       \<and> write_records w ws1 records = Inr ws2
       \<and> (ws2 = ws1 \<longleftrightarrow>
            (w = IpcaWriter \<longrightarrow>
               day (date (hd records)) = 1
               \<and> (\<forall>record \<in> set (tl records).
                     (year (date record), month (date record))
                       \<noteq> (year (date (hd records)), month (date (hd records))))))"
proof -
  let ?n = "length records"
  from nonempty obtain record0 rest where records: "records = record0 # rest"
    by (cases records) auto
  let ?fd = "date record0"
  let ?good = "w = IpcaWriter \<longrightarrow>
               day ?fd = 1
               \<and> (\<forall>record \<in> set rest.
                     (year (date record), month (date record)) \<noteq> (year ?fd, month ?fd))"
  have n: "0 < ?n" using nonempty by simp
  have n2: "2 \<le> Suc ?n" by (simp add: records)
  let ?wsh = "write_headers w new_sheet"
  from write_rows_cells [OF formatted, of ?wsh 2] obtain ws1 where
    run1: "write_rows w ?wsh 2 records = Inr ws1"
    and cells1: "\<forall>r c. cells ws1 (r, c) =
           (if 2 \<le> r \<and> r < 2 + ?n \<and> 1 \<le> c \<and> c \<le> 3
            then rows ! (r - 2) ! (c - 1) else cells ?wsh (r, c))"
    and mr1: "max_row ws1 = max (max_row ?wsh) (2 + ?n - 1)"
    and mc1: "max_column ws1 = max (max_column ?wsh) 3"
    using nonempty by auto
  have max_row1: "max_row ws1 = Suc ?n"
    using n by (simp add: mr1 max_row_write_headers new_sheet_def)
  have max_column1: "max_column ws1 = 3"
    by (simp add: mc1 max_column_write_headers new_sheet_def)
  have content: "cells ws1 (r, c) =
             (if r = 1 \<and> 1 \<le> c \<and> c \<le> 3 then VStr (get_headers w ! (c - 1))
              else if 2 \<le> r \<and> r \<le> Suc ?n \<and> 1 \<le> c \<and> c \<le> 3
                then rows ! (r - 2) ! (c - 1)
              else VNone)" for r c
    by (auto simp: cells1 cells_write_headers new_sheet_def)
  have first: "write_records w new_sheet records = Inr ws1"
  proof -
    have "write_records w new_sheet records = Inr (erase_extra_records ws1 (2 + ?n))"
      using run1 by (simp add: write_records_def records get_first_row_new_sheet)
    then show ?thesis
      by (simp add: erase_extra_records_nothing max_row1)
  qed
  have rec: "format_record w (records ! (r - 2)) = Inr (rows ! (r - 2))"
    if "2 \<le> r" "r \<le> Suc ?n" for r
    using that by (intro list_all2_nthD [OF formatted]) auto
  have later: "?fd < date (records ! (r - 2))" if "2 < r" "r \<le> Suc ?n" for r
  proof -
    from that have "0 < r - 2" "r - 2 < ?n" by auto
    with ascending have "date (records ! 0) < date (records ! (r - 2))"
      by (simp add: sorted_wrt_iff_nth_less)
    then show ?thesis by (simp add: records)
  qed
  have located: "\<exists>L. get_first_row w ws1 ?fd = Inr L \<and> 2 \<le> L \<and> (L = 2 \<longleftrightarrow> ?good)"
  proof (cases "w = IpcaWriter")
    case False
    let ?key = "\<lambda>r. date (records ! (r - 2))"
    have "\<forall>r. 2 \<le> r \<and> r \<le> Suc ?n \<longrightarrow> cells ws1 (r, 1) = VDate (?key r)"
    proof (intro allI impI)
      fix r assume r: "2 \<le> r \<and> r \<le> Suc ?n"
      then have "cells ws1 (r, 1) = rows ! (r - 2) ! 0"
        by (simp add: content)
      also have "\<dots> = VDate (?key r)"
        using format_record_date [OF False rec] r by simp
      finally show "cells ws1 (r, 1) = VDate (?key r)" .
    qed
    note sc = scan_first_row_cases [OF this, of ?fd]
    have k2: "?key 2 \<le> ?fd" by (simp add: records)
    from located_row_cases [where key = ?key and n = "Suc ?n", OF k2 n2 sc]
    obtain L where L: "scan_first_row ws1 ?fd (Suc ?n) = Inr L" "2 \<le> L"
      "L = 2 \<longleftrightarrow> ?key 2 = ?fd \<and> (\<forall>r. 2 < r \<and> r \<le> Suc ?n \<longrightarrow> ?fd < ?key r)"
      by blast
    have "?key 2 = ?fd \<and> (\<forall>r. 2 < r \<and> r \<le> Suc ?n \<longrightarrow> ?fd < ?key r)"
      using later by (simp add: records)
    with L(3) have "L = 2" by blast
    moreover from False L(1) have "get_first_row w ws1 ?fd = Inr L"
      by (cases w) (simp_all add: WorksheetWriter_get_first_row_def max_row1)
    ultimately show ?thesis using False by simp
  next
    case True
    let ?key = "\<lambda>r. Date (year (date (records ! (r - 2))))
                         (month (date (records ! (r - 2)))) 1"
    have "\<forall>r. 2 \<le> r \<and> r \<le> Suc ?n \<longrightarrow>
            date_of_cells (cells ws1 (r, 1)) (cells ws1 (r, 2)) = Inr (?key r)"
    proof (intro allI impI)
      fix r assume r: "2 \<le> r \<and> r \<le> Suc ?n"
      let ?d = "date (records ! (r - 2))"
      from r have "records ! (r - 2) \<in> set records" by auto
      with valid have v: "valid_date ?d" by blast
      from r have "cells ws1 (r, 1) = rows ! (r - 2) ! 0" "cells ws1 (r, 2) = rows ! (r - 2) ! 1"
        by (simp_all add: content)
      with format_record_ipca [OF rec [unfolded True]] r
      have "cells ws1 (r, 1) = VInt (year ?d)" "cells ws1 (r, 2) = VInt (month ?d)"
        by simp_all
      moreover have "date_of_cells (VInt (year ?d)) (VInt (month ?d))
          = Inr (Date (year ?d) (month ?d) 1)"
        using v by (intro date_of_cells_month) (simp_all add: valid_date_def)
      ultimately show "date_of_cells (cells ws1 (r, 1)) (cells ws1 (r, 2)) = Inr (?key r)"
        by simp
    qed
    note sc = ipca_scan_first_row_cases [OF this, of ?fd]
    from valid have "valid_date ?fd" by (simp add: records)
    then have day0: "1 \<le> day ?fd" by (simp add: valid_date_def)
    have k2: "?key 2 \<le> ?fd" using first_of_month(1) [OF day0] by (simp add: records)
    have k2eq: "(?key 2 = ?fd) = (day ?fd = 1)"
      using first_of_month(2) [of ?fd] by (simp add: records)
    from located_row_cases [where key = ?key and n = "Suc ?n", OF k2 n2 sc]
    obtain L where L: "ipca_scan_first_row ws1 ?fd (Suc ?n) = Inr L" "2 \<le> L"
      "L = 2 \<longleftrightarrow> ?key 2 = ?fd \<and> (\<forall>r. 2 < r \<and> r \<le> Suc ?n \<longrightarrow> ?fd < ?key r)"
      by blast
    have months: "(\<forall>r. 2 < r \<and> r \<le> Suc ?n \<longrightarrow> ?fd < ?key r)
        \<longleftrightarrow> (\<forall>record \<in> set rest.
               (year (date record), month (date record)) \<noteq> (year ?fd, month ?fd))"
      if day1: "day ?fd = 1"
    proof
      assume all: "\<forall>r. 2 < r \<and> r \<le> Suc ?n \<longrightarrow> ?fd < ?key r"
      show "\<forall>record \<in> set rest.
               (year (date record), month (date record)) \<noteq> (year ?fd, month ?fd)"
      proof
        fix x assume "x \<in> set rest"
        then obtain j where j: "j < length rest" "x = rest ! j"
          by (auto simp: in_set_conv_nth)
        then have "2 < j + 3 \<and> j + 3 \<le> Suc ?n" by (simp add: records)
        with all have "?fd < ?key (j + 3)" by blast
        moreover have "records ! (j + 3 - 2) = x" using j by (simp add: records)
        ultimately have lt: "?fd < Date (year (date x)) (month (date x)) 1" by simp
        show "(year (date x), month (date x)) \<noteq> (year ?fd, month ?fd)"
        proof
          assume "(year (date x), month (date x)) = (year ?fd, month ?fd)"
          then have "Date (year (date x)) (month (date x)) 1 = Date (year ?fd) (month ?fd) 1"
            by simp
          also have "\<dots> = ?fd" using day1 by (simp add: first_of_month(2))
          finally show False using lt by simp
        qed
      qed
    next
      assume other: "\<forall>record \<in> set rest.
               (year (date record), month (date record)) \<noteq> (year ?fd, month ?fd)"
      show "\<forall>r. 2 < r \<and> r \<le> Suc ?n \<longrightarrow> ?fd < ?key r"
      proof (intro allI impI)
        fix r assume r: "2 < r \<and> r \<le> Suc ?n"
        let ?x = "records ! (r - 2)"
        from r have "r - 2 = Suc (r - 3)" by arith
        then have "?x = rest ! (r - 3)" by (simp add: records)
        moreover have "length records = Suc (length rest)" by (simp add: records)
        with r have "r - 3 < length rest" by arith
        ultimately have "?x = rest ! (r - 3)" "r - 3 < length rest" by simp_all
        then have "?x \<in> set rest" by simp
        with other have "(year (date ?x), month (date ?x)) \<noteq> (year ?fd, month ?fd)"
          by blast
        moreover from later r have "?fd < date ?x" by blast
        ultimately show "?fd < ?key r" by (rule first_of_later_month [rotated])
      qed
    qed
    have "L = 2 \<longleftrightarrow> ?good"
    proof (cases "day ?fd = 1")
      case day1: True
      from months [OF day1] L(3) k2eq day1 True show ?thesis by blast
    next
      case day1: False
      from L(3) k2eq day1 True show ?thesis by blast
    qed
    moreover from True L(1) have "get_first_row w ws1 ?fd = Inr L"
      by (simp add: IpcaWriter_get_first_row_def max_row1)
    ultimately show ?thesis using L(2) by blast
  qed
  then obtain L where located: "get_first_row w ws1 ?fd = Inr L"
    and L2: "2 \<le> L" and Lgood: "L = 2 \<longleftrightarrow> ?good"
    by blast
  from write_rows_cells [OF formatted, of ws1 L] obtain ws2 where
    run2: "write_rows w ws1 L records = Inr ws2"
    and cells2: "\<forall>r c. cells ws2 (r, c) =
           (if L \<le> r \<and> r < L + ?n \<and> 1 \<le> c \<and> c \<le> 3
            then rows ! (r - L) ! (c - 1) else cells ws1 (r, c))"
    and mr2: "max_row ws2 = max (max_row ws1) (L + ?n - 1)"
    and mc2: "max_column ws2 = max (max_column ws1) 3"
    using nonempty by auto
  have max_row2: "max_row ws2 = L + ?n - 1"
    using L2 by (simp add: mr2 max_row1)
  have second: "write_records w ws1 records = Inr ws2"
  proof -
    from L2 have "L \<noteq> 1" by simp
    then have "write_rows w (if L = 1 then write_headers w ws1 else ws1)
          (if L = 1 then 2 else L) (record0 # rest) = Inr ws2"
      using run2 by (simp only: if_False records)
    from write_records_located [OF located this] \<open>L \<noteq> 1\<close>
    have "write_records w ws1 records = Inr (erase_extra_records ws2 (L + ?n))"
      by (simp add: records)
    then show ?thesis
      using n by (simp add: erase_extra_records_nothing max_row2)
  qed
  have same: "ws2 = ws1 \<longleftrightarrow> L = 2"
  proof
    assume "ws2 = ws1"
    then have "max_row ws2 = max_row ws1" by simp
    with n show "L = 2" by (simp add: max_row2 max_row1)
  next
    assume L: "L = 2"
    show "ws2 = ws1"
    proof (rule sheet_eqI)
      show "cells ws2 = cells ws1"
        by (rule ext) (auto simp: cells2 content L)
      show "max_row ws2 = max_row ws1"
        by (simp add: max_row2 max_row1 L)
      show "max_column ws2 = max_column ws1"
        by (simp add: mc2 max_column1)
    qed
  qed
  have "ws2 = ws1 \<longleftrightarrow>
            (w = IpcaWriter \<longrightarrow>
               day (date (hd records)) = 1
               \<and> (\<forall>record \<in> set (tl records).
                     (year (date record), month (date record))
                       \<noteq> (year (date (hd records)), month (date (hd records)))))"
    using same Lgood by (simp add: records)
  with first second max_row1 max_column1 content show ?thesis by blast
qed


theorem write_twice_same_sheet_witness:
  "\<not> isl (write_records IpcaWriter new_sheet ipca_records)
   \<and> write_records IpcaWriter (projr (write_records IpcaWriter new_sheet ipca_records))
         ipca_records
       = write_records IpcaWriter new_sheet ipca_records
   \<and> max_row (projr (write_records IpcaWriter new_sheet ipca_records)) = 3
   \<and> cells (projr (write_records IpcaWriter new_sheet ipca_records)) (1, 2) = VStr ''mes''
   \<and> cells (projr (write_records IpcaWriter new_sheet ipca_records)) (3, 2) = VInt 7
   \<and> cells (projr (write_records IpcaWriter new_sheet ipca_records)) (4, 2) = VNone"
proof -
  let ?rows = "[[VInt 2023, VInt 6, VDec (Dec 23 (- 2))], [VInt 2023, VInt 7, VDec (Dec 12 (- 2))]]"
  have nonempty: "ipca_records \<noteq> []"
    by (simp add: ipca_records_def)
  have ascending: "sorted_wrt (\<lambda>a b. date a < date b) ipca_records"
    by (simp add: ipca_records_def less_date_def)
  have formatted: "list_all2 (\<lambda>record row. format_record IpcaWriter record = Inr row)
                     ipca_records ?rows"
    by (simp add: ipca_records_def IpcaWriter_format_record_def)
  have valid: "\<forall>record \<in> set ipca_records. valid_date (date record)"
    by (simp add: ipca_records_def valid_date_def days_in_month_def)
  have months: "IpcaWriter = IpcaWriter \<longrightarrow>
               day (date (hd ipca_records)) = 1
               \<and> (\<forall>record \<in> set (tl ipca_records).
                     (year (date record), month (date record))
                       \<noteq> (year (date (hd ipca_records)), month (date (hd ipca_records))))"
    by (simp add: ipca_records_def)
  from write_twice_same_sheet [OF nonempty ascending formatted valid]
  obtain ws1 ws2 where first: "write_records IpcaWriter new_sheet ipca_records = Inr ws1"
    and rows: "max_row ws1 = Suc (length ipca_records)"
    and content: "\<forall>r c. cells ws1 (r, c) =
             (if r = 1 \<and> 1 \<le> c \<and> c \<le> 3 then VStr (get_headers IpcaWriter ! (c - 1))
              else if 2 \<le> r \<and> r \<le> Suc (length ipca_records) \<and> 1 \<le> c \<and> c \<le> 3
                then ?rows ! (r - 2) ! (c - 1)
              else VNone)"
    and second: "write_records IpcaWriter ws1 ipca_records = Inr ws2"
    and same: "ws2 = ws1 \<longleftrightarrow>
            (IpcaWriter = IpcaWriter \<longrightarrow>
               day (date (hd ipca_records)) = 1
               \<and> (\<forall>record \<in> set (tl ipca_records).
                     (year (date record), month (date record))
                       \<noteq> (year (date (hd ipca_records)), month (date (hd ipca_records)))))"
    by blast
  from same months have "ws2 = ws1" by blast
  with second have again: "write_records IpcaWriter ws1 ipca_records = Inr ws1" by simp
  have "cells ws1 (1, 2) = VStr ''mes''" "cells ws1 (3, 2) = VInt 7" "cells ws1 (4, 2) = VNone"
    by (simp_all add: content ipca_records_def IpcaWriter_get_headers_def)
  with first again rows show ?thesis
    by (simp add: ipca_records_def)
qed

subsection \<open>Decimal arithmetic within the precision of the context\<close>

text \<open>
  The number of digits of a coefficient, and the loop that strips the trailing
  zeros of an exact quotient.
\<close>

lemma ndigits_pos: "0 < ndigits n"
  by (subst ndigits.simps) simp

lemma ndigits_le: "n < 10 ^ k \<Longrightarrow> 0 < k \<Longrightarrow> ndigits n \<le> k"
proof (induction k arbitrary: n)
  case 0
  then show ?case by simp
next
  case (Suc k)
  show ?case
  proof (cases "n < 10")
    case True
    then show ?thesis by (subst ndigits.simps) simp
  next
    case False
    with Suc.prems have k: "0 < k" by (cases k) auto
    from Suc.prems have "n div 10 < 10 ^ k" by simp
    from Suc.IH [OF this k] False show ?thesis by (subst ndigits.simps) simp
  qed
qed

lemma ndigits_upper: "n < 10 ^ ndigits n"
proof (induction n rule: ndigits.induct)
  case (1 n)
  show ?case
  proof (cases "n < 10")
    case True
    then show ?thesis by (subst ndigits.simps) simp
  next
    case False
    from 1 [OF False] have "n div 10 < 10 ^ ndigits (n div 10)" .
    then have "n < 10 * 10 ^ ndigits (n div 10)" by simp
    with False show ?thesis by (subst ndigits.simps) simp
  qed
qed

lemma ndigits_mult_power: "0 < a \<Longrightarrow> ndigits (a * 10 ^ k) = ndigits a + k"
proof (induction k)
  case 0
  then show ?case by simp
next
  case (Suc k)
  from Suc.prems have "1 \<le> a * 10 ^ k" by (simp add: int_one_le_iff_zero_less)
  then have "\<not> a * 10 ^ Suc k < 10" by simp
  moreover have "a * 10 ^ Suc k div 10 = a * 10 ^ k" by simp
  ultimately have "ndigits (a * 10 ^ Suc k) = Suc (ndigits (a * 10 ^ k))"
    by (subst ndigits.simps) (simp only: if_False)
  with Suc show ?case by simp
qed

lemma strip_zeros_power:
  "expn + int k \<le> ideal_exp \<Longrightarrow>
     strip_zeros (a * 10 ^ k) expn ideal_exp = strip_zeros a (expn + int k) ideal_exp"
proof (induction k arbitrary: expn)
  case 0
  then show ?case by simp
next
  case (Suc k)
  from Suc.prems have lt: "expn < ideal_exp" by simp
  have "strip_zeros (a * 10 ^ Suc k) expn ideal_exp
      = strip_zeros (a * 10 ^ Suc k div 10) (expn + 1) ideal_exp"
    using lt by (subst strip_zeros.simps) simp
  also have "a * 10 ^ Suc k div 10 = a * 10 ^ k" by simp
  also have "strip_zeros (a * 10 ^ k) (expn + 1) ideal_exp
      = strip_zeros a (expn + 1 + int k) ideal_exp"
    using Suc.prems by (intro Suc.IH) simp
  also have "expn + 1 + int k = expn + int (Suc k)" by simp
  finally show ?case .
qed

lemma strip_zeros_invariant:
  "strip_zeros a x ideal_exp = (a', x') \<Longrightarrow> 0 < a \<Longrightarrow>
     x \<le> x' \<and> a = a' * 10 ^ nat (x' - x) \<and> 0 < a'"
proof (induction a x ideal_exp rule: strip_zeros.induct)
  case (1 coeff expn ideal_exp)
  show ?case
  proof (cases "expn < ideal_exp \<and> coeff mod 10 = 0")
    case True
    with "1.prems" have run: "strip_zeros (coeff div 10) (expn + 1) ideal_exp = (a', x')"
      by (subst (asm) strip_zeros.simps) simp
    from True "1.prems" have pos: "0 < coeff div 10"
      by presburger
    from "1.IH" [OF True run pos] have ih: "expn + 1 \<le> x'" "coeff div 10 = a' * 10 ^ nat (x' - (expn + 1))" "0 < a'"
      by simp_all
    from True have "coeff = coeff div 10 * 10" by presburger
    also have "\<dots> = a' * 10 ^ Suc (nat (x' - (expn + 1)))" using ih(2) by simp
    also have "Suc (nat (x' - (expn + 1))) = nat (x' - expn)" using ih(1) by simp
    finally show ?thesis using ih by simp
  next
    case False
    with "1.prems" have "a' = coeff" "x' = expn"
      by (subst (asm) strip_zeros.simps; simp)+
    with "1.prems" show ?thesis by simp
  qed
qed

lemma ndigits_100: "ndigits 100 = 3"
  by (simp add: ndigits.simps)


lemma ndigits_lower: "1 \<le> n \<Longrightarrow> 10 ^ (ndigits n - 1) \<le> n"
proof (induction n rule: ndigits.induct)
  case (1 n)
  show ?case
  proof (cases "n < 10")
    case True
    with "1.prems" show ?thesis by (subst ndigits.simps) simp
  next
    case False
    then have "1 \<le> n div 10" by simp
    from "1.IH" [OF False this] have "10 ^ (ndigits (n div 10) - 1) \<le> n div 10" .
    then have "10 * 10 ^ (ndigits (n div 10) - 1) \<le> n" by simp
    moreover have "ndigits n - 1 = Suc (ndigits (n div 10) - 1)"
      using False ndigits_pos [of "n div 10"] by (subst ndigits.simps) simp
    ultimately show ?thesis by simp
  qed
qed

lemma dec_fix_small: "\<bar>coefficient x\<bar> < 10 ^ 28 \<Longrightarrow> dec_fix x = x"
  using ndigits_le [of "\<bar>coefficient x\<bar>" 28] by (simp add: dec_fix_def prec_def)

lemma dec_mul_one: "\<bar>coefficient x\<bar> < 10 ^ 28 \<Longrightarrow> dec_mul x (Dec 1 0) = x"
  by (simp add: dec_mul_def dec_fix_small)

lemma dec_truediv_exact:
  assumes "coefficient a \<noteq> 0" "coefficient b \<noteq> 0"
      and "int (ndigits \<bar>coefficient b\<bar>) - int (ndigits \<bar>coefficient a\<bar>) + int prec + 1 = int k"
      and "\<bar>coefficient a\<bar> * 10 ^ k mod \<bar>coefficient b\<bar> = 0"
  shows "dec_truediv a b =
     Inr (dec_fix (case strip_zeros (\<bar>coefficient a\<bar> * 10 ^ k div \<bar>coefficient b\<bar>)
                          (exponent a - exponent b - int k) (exponent a - exponent b) of
                     (coeff', expn') \<Rightarrow>
                        Dec (sgn (coefficient a) * sgn (coefficient b) * coeff') expn'))"
  using assms by (simp add: dec_truediv_def Let_def split: prod.splits)

lemma dec_truediv_100:
  assumes nz: "c \<noteq> 0" and small: "\<bar>c\<bar> < 10 ^ 28"
  shows "\<exists>cq eq. dec_truediv (Dec c e) (Dec 100 0) = Inr (Dec cq eq)
           \<and> e - 2 \<le> eq \<and> c = cq * 10 ^ nat (eq - (e - 2)) \<and> cq \<noteq> 0"
proof -
  let ?n = "ndigits \<bar>c\<bar>"
  have n: "?n \<le> 28" using small by (intro ndigits_le) simp_all
  define m where "m = 30 - ?n"
  have shift: "int (ndigits \<bar>coefficient (Dec 100 0)\<bar>) - int (ndigits \<bar>coefficient (Dec c e)\<bar>)
                 + int prec + 1 = int (Suc (Suc m))"
    using n by (simp add: ndigits_100 prec_def m_def)
  have num: "\<bar>c\<bar> * 10 ^ Suc (Suc m) = \<bar>c\<bar> * 10 ^ m * 100" by simp
  have exact: "\<bar>coefficient (Dec c e)\<bar> * 10 ^ Suc (Suc m) mod \<bar>coefficient (Dec 100 0)\<bar> = 0"
    unfolding decimal.sel num by simp
  have quot: "\<bar>coefficient (Dec c e)\<bar> * 10 ^ Suc (Suc m) div \<bar>coefficient (Dec 100 0)\<bar>
      = \<bar>c\<bar> * 10 ^ m"
    unfolding decimal.sel num by simp
  have strip: "strip_zeros (\<bar>c\<bar> * 10 ^ m) (e - int (Suc (Suc m))) e = strip_zeros \<bar>c\<bar> (e - 2) e"
  proof -
    have "strip_zeros (\<bar>c\<bar> * 10 ^ m) (e - int (Suc (Suc m))) e
        = strip_zeros \<bar>c\<bar> (e - int (Suc (Suc m)) + int m) e"
      by (rule strip_zeros_power) simp
    also have "e - int (Suc (Suc m)) + int m = e - 2" by simp
    finally show ?thesis .
  qed
  obtain a' x' where st: "strip_zeros \<bar>c\<bar> (e - 2) e = (a', x')"
    by (cases "strip_zeros \<bar>c\<bar> (e - 2) e") auto
  from strip_zeros_invariant [OF st] nz
  have inv: "e - 2 \<le> x'" "\<bar>c\<bar> = a' * 10 ^ nat (x' - (e - 2))" "0 < a'" by simp_all
  have "a' \<le> a' * 10 ^ nat (x' - (e - 2))"
    using inv(3) by (simp add: mult_le_cancel_left1)
  with inv(2) small have a': "a' < 10 ^ 28" by simp
  have st': "strip_zeros (\<bar>c\<bar> * 10 ^ m) (e - (2 + int m)) e = (a', x')"
    using strip st by simp
  have "dec_truediv (Dec c e) (Dec 100 0) = Inr (dec_fix (Dec (sgn c * a') x'))"
    using dec_truediv_exact [of "Dec c e" "Dec 100 0", OF _ _ shift exact] nz
    unfolding quot by (simp add: st')
  moreover have "dec_fix (Dec (sgn c * a') x') = Dec (sgn c * a') x'"
    using a' inv(3) nz by (intro dec_fix_small) (simp add: abs_mult)
  ultimately have quotient: "dec_truediv (Dec c e) (Dec 100 0) = Inr (Dec (sgn c * a') x')"
    by simp
  have scaled: "c = sgn c * a' * 10 ^ nat (x' - (e - 2))"
  proof -
    have "c = sgn c * \<bar>c\<bar>" by (simp add: mult_sgn_abs)
    with inv(2) show ?thesis by (simp add: mult.assoc)
  qed
  have nonzero: "sgn c * a' \<noteq> 0" using nz inv(3) by (simp add: sgn_if)
  show ?thesis
  proof (intro exI conjI)
    show "dec_truediv (Dec c e) (Dec 100 0) = Inr (Dec (sgn c * a') x')" by (fact quotient)
    show "e - 2 \<le> x'" by (fact inv(1))
    show "c = sgn c * a' * 10 ^ nat (x' - (e - 2))" by (fact scaled)
    show "sgn c * a' \<noteq> 0" by (fact nonzero)
  qed
qed

text \<open>
  Rounding half to even by quotient and remainder, as the decimal operations
  do it, is rounding half to even of the exact rational.
\<close>

lemma round_half_even_of_int: "round_half_even (of_int i) = i"
  by (simp add: round_half_even_def)

lemma round_half_even_quotient:
  assumes d: "0 < d"
  shows "round_half_even (of_int c / of_int d) =
     (if 2 * (c mod d) < d then c div d
      else if d < 2 * (c mod d) then c div d + 1
      else if even (c div d) then c div d else c div d + 1)"
proof -
  let ?q = "of_int c / of_int d :: rat"
  have f: "\<lfloor>?q\<rfloor> = c div d" by (rule floor_divide_of_int_eq)
  have "of_int c = (of_int (c div d) * of_int d + of_int (c mod d) :: rat)"
    by (metis of_int_add of_int_mult div_mult_mod_eq)
  then have r: "?q - of_int (c div d) = of_int (c mod d) / of_int d"
    using d by (simp add: field_simps)
  have lt: "(of_int (c mod d) / of_int d < (1 / 2 :: rat)) = (2 * (c mod d) < d)"
  proof -
    have "(of_int (c mod d) / of_int d < (1 / 2 :: rat))
        = ((of_int (2 * (c mod d)) :: rat) < of_int d)"
      using d by (simp add: field_simps)
    then show ?thesis by (simp only: of_int_less_iff)
  qed
  have gt: "((1 / 2 :: rat) < of_int (c mod d) / of_int d) = (d < 2 * (c mod d))"
  proof -
    have "((1 / 2 :: rat) < of_int (c mod d) / of_int d)
        = ((of_int d :: rat) < of_int (2 * (c mod d)))"
      using d by (simp add: field_simps)
    then show ?thesis by (simp only: of_int_less_iff)
  qed
  show ?thesis
    unfolding round_half_even_def Let_def f r lt gt ..
qed

lemma round_half_even_div_eq:
  assumes d: "0 < d"
  shows "round_half_even_div c d = round_half_even (of_int c / of_int d)"
proof (cases "0 \<le> c")
  case True
  then show ?thesis
    unfolding round_half_even_quotient [OF d] round_half_even_div_def Let_def
    using d by (cases "c = 0") (simp_all add: sgn_if)
next
  case False
  let ?a = "- c"
  have a: "\<bar>c\<bar> = ?a" "sgn c = - 1" using False by simp_all
  have r: "0 \<le> ?a mod d" "?a mod d < d" using d by simp_all
  have dv: "c div d = (if ?a mod d = 0 then - (?a div d) else - (?a div d) - 1)"
    using zdiv_zminus1_eq_if [of d ?a] d by simp
  have md: "c mod d = (if ?a mod d = 0 then 0 else d - ?a mod d)"
    using zmod_zminus1_eq_if [of ?a d] by simp
  show ?thesis
    unfolding round_half_even_quotient [OF d] round_half_even_div_def Let_def a dv md
    using r d by auto
qed

lemma round_half_even_abs_le:
  assumes "\<bar>x\<bar> \<le> of_int N"
  shows "\<bar>round_half_even x\<bar> \<le> N"
proof -
  from assms have lo: "- N \<le> \<lfloor>x\<rfloor>" by (simp add: le_floor_iff abs_le_iff)
  have lower: "\<lfloor>x\<rfloor> \<le> round_half_even x"
    by (simp add: round_half_even_def Let_def)
  have upper: "round_half_even x \<le> N"
  proof (cases "x = of_int \<lfloor>x\<rfloor>")
    case True
    then have "round_half_even x = \<lfloor>x\<rfloor>"
      by (metis round_half_even_of_int)
    moreover from assms have "\<lfloor>x\<rfloor> \<le> N" by (simp add: floor_le_iff abs_le_iff)
    ultimately show ?thesis by simp
  next
    case False
    then have "of_int \<lfloor>x\<rfloor> < x" by (metis less_le of_int_floor_le)
    also from assms have "x \<le> of_int N" by (simp add: abs_le_iff)
    finally have "\<lfloor>x\<rfloor> < N" by simp
    moreover have "round_half_even x \<le> \<lfloor>x\<rfloor> + 1"
      by (simp add: round_half_even_def Let_def)
    ultimately show ?thesis by simp
  qed
  from lo lower upper show ?thesis by simp
qed

text \<open>
  The value of a decimal under division by 100 and under rescaling to eight
  fractional digits.
\<close>

lemma powi_nat: "0 \<le> n \<Longrightarrow> (x :: rat) powi n = x ^ nat n"
  by (simp add: power_int_def)

lemma powi_neg:
  assumes "n < 0"
  shows "(x :: rat) powi n = 1 / x ^ nat (- n)"
proof -
  from assms have "\<not> 0 \<le> n" by simp
  then have "x powi n = inverse x ^ nat (- n)" by (simp only: power_int_def if_False)
  also have "\<dots> = 1 / x ^ nat (- n)" by (metis power_inverse inverse_eq_divide)
  finally show ?thesis .
qed

lemma dec_val_powi: "dec_val x = of_int (coefficient x) * 10 powi exponent x"
proof (cases "0 \<le> exponent x")
  case True
  then show ?thesis by (simp only: dec_val_def powi_nat if_True)
next
  case False
  then have "exponent x < 0" by simp
  from powi_neg [OF this] False show ?thesis
    by (simp only: dec_val_def if_False times_divide_eq_right mult_1_right)
qed


lemma powi_add_10: "(10 :: rat) powi (m + n) = 10 powi m * 10 powi n"
  by (rule power_int_add) simp

lemma dec_val_scaled:
  assumes "c = cq * 10 ^ nat (eq - (e - 2))" and "e - 2 \<le> eq"
  shows "dec_val (Dec cq eq) = dec_val (Dec c e) / 100"
proof -
  let ?k = "nat (eq - (e - 2))"
  have k: "(10 :: rat) ^ ?k = 10 powi (eq - (e - 2))"
    using assms(2) by (intro powi_nat [symmetric]) simp
  have "of_int c = (of_int cq * 10 ^ ?k :: rat)"
    by (subst assms(1)) simp
  then have "dec_val (Dec c e) = of_int cq * (10 powi (eq - (e - 2)) * 10 powi e)"
    by (simp only: dec_val_powi decimal.sel k mult.assoc)
  also have "(10 :: rat) powi (eq - (e - 2)) * 10 powi e = 10 powi (eq - (e - 2) + e)"
    by (rule powi_add_10 [symmetric])
  also have "eq - (e - 2) + e = eq + 2" by simp
  also have "(10 :: rat) powi (eq + 2) = 10 powi eq * 10 powi 2"
    by (rule powi_add_10)
  also have "(10 :: rat) powi 2 = 100" by simp
  finally have "dec_val (Dec c e) = of_int cq * (10 powi eq * 100)" .
  then show ?thesis by (simp add: dec_val_powi)
qed

lemma dec_val_times_10_8:
  "dec_val x * 10 ^ 8 = of_int (coefficient x) * 10 powi (exponent x + 8)"
proof -
  have "(10 :: rat) powi (exponent x + 8) = 10 powi exponent x * 10 powi 8"
    by (rule powi_add_10)
  also have "(10 :: rat) powi 8 = 10 ^ 8" by simp
  finally show ?thesis by (simp only: dec_val_powi mult.assoc)
qed

lemma dec_rescale_8:
  "dec_rescale x (- 8) = Dec (round_half_even (dec_val x * 10 ^ 8)) (- 8)"
proof (cases "- 8 \<le> exponent x")
  case True
  then have "(10 :: rat) powi (exponent x + 8) = 10 ^ nat (exponent x + 8)"
    by (intro powi_nat) simp
  then have "dec_val x * 10 ^ 8 = of_int (coefficient x * 10 ^ nat (exponent x + 8))"
    by (simp only: dec_val_times_10_8 of_int_mult of_int_power of_int_numeral)
  then have "round_half_even (dec_val x * 10 ^ 8) = coefficient x * 10 ^ nat (exponent x + 8)"
    by (simp only: round_half_even_of_int)
  with True show ?thesis by (simp add: dec_rescale_def)
next
  case False
  let ?k = "nat (- 8 - exponent x)"
  from False have "(10 :: rat) powi (exponent x + 8) = 1 / 10 ^ nat (- (exponent x + 8))"
    by (intro powi_neg) simp
  also have "nat (- (exponent x + 8)) = ?k" by simp
  finally have "dec_val x * 10 ^ 8 = of_int (coefficient x) / of_int (10 ^ ?k)"
    by (simp only: dec_val_times_10_8 of_int_power of_int_numeral times_divide_eq_right
        mult_1_right)
  also have "round_half_even \<dots> = round_half_even_div (coefficient x) (10 ^ ?k)"
    by (rule round_half_even_div_eq [symmetric]) simp
  finally have "round_half_even (dec_val x * 10 ^ 8)
      = round_half_even_div (coefficient x) (10 ^ ?k)" .
  with False show ?thesis by (simp add: dec_rescale_def)
qed

lemma adjusted_bound:
  assumes nz: "cq \<noteq> 0" and bound: "\<bar>dec_val (Dec cq eq)\<bar> < 10 ^ m"
  shows "int (ndigits \<bar>cq\<bar>) + eq \<le> int m"
proof -
  let ?n = "ndigits \<bar>cq\<bar>"
  from nz have "1 \<le> \<bar>cq\<bar>" by simp
  from ndigits_lower [OF this] have "(of_int (10 ^ (?n - 1)) :: rat) \<le> of_int \<bar>cq\<bar>"
    by (simp only: of_int_le_iff)
  then have "(10 :: rat) powi int (?n - 1) \<le> of_int \<bar>cq\<bar>"
    by (simp only: power_int_of_nat of_int_power of_int_numeral)
  then have "(10 :: rat) powi int (?n - 1) * 10 powi eq \<le> of_int \<bar>cq\<bar> * 10 powi eq"
    by (rule mult_right_mono) (simp add: less_imp_le)
  also have "of_int \<bar>cq\<bar> * 10 powi eq = \<bar>dec_val (Dec cq eq)\<bar>"
    by (simp add: dec_val_powi abs_mult power_int_abs)
  also have "\<dots> < 10 powi int m" using bound by (simp only: power_int_of_nat)
  finally have "(10 :: rat) powi (int (?n - 1) + eq) < 10 powi int m"
    by (simp only: powi_add_10)
  then have "int (?n - 1) + eq < int m"
    by (rule power_int_le_imp_less_exp [rotated]) simp_all
  with ndigits_pos [of "\<bar>cq\<bar>"] show ?thesis by simp
qed


lemma daily_value_exact:
  assumes small: "\<bar>coefficient v\<bar> < 10 ^ 28" and bound: "\<bar>dec_val v\<bar> < 10 ^ 21"
  shows "\<exists>q. dec_truediv (dec_mul v (Dec 1 0)) (Dec 100 0) = Inr q
     \<and> dec_round q 8 = Inr (Dec (round_half_even (dec_val v / 100 * 10 ^ 8)) (- 8))
     \<and> dec_add (Dec 1 0) (Dec (round_half_even (dec_val v / 100 * 10 ^ 8)) (- 8))
         = Dec (100000000 + round_half_even (dec_val v / 100 * 10 ^ 8)) (- 8)"
proof -
  let ?R = "round_half_even (dec_val v / 100 * 10 ^ 8)"
  obtain c e where v: "v = Dec c e" by (cases v)
  have "\<bar>dec_val v / 100 * 10 ^ 8\<bar> = \<bar>dec_val v\<bar> * 10 ^ 6" by (simp add: abs_mult)
  also have "\<dots> < 10 ^ 21 * 10 ^ 6" using bound by simp
  finally have "\<bar>dec_val v / 100 * 10 ^ 8\<bar> \<le> of_int (10 ^ 27)" by simp
  from round_half_even_abs_le [OF this] have R: "\<bar>?R\<bar> \<le> 10 ^ 27" .
  have add: "dec_add (Dec 1 0) (Dec ?R (- 8)) = Dec (100000000 + ?R) (- 8)"
  proof -
    have "\<bar>100000000 + ?R\<bar> < 10 ^ 28" using R by simp
    then have "dec_fix (Dec (100000000 + ?R) (- 8)) = Dec (100000000 + ?R) (- 8)"
      by (intro dec_fix_small) simp
    then show ?thesis by (simp add: dec_add_def)
  qed
  have mul: "dec_mul v (Dec 1 0) = v" using small by (rule dec_mul_one)
  show ?thesis
  proof (cases "c = 0")
    case True
    have "dec_truediv v (Dec 100 0) = Inr (Dec 0 e)"
      by (simp add: dec_truediv_def v True dec_fix_small)
    moreover have "dec_round (Dec 0 e) 8 = Inr (Dec 0 (- 8))" by (simp add: dec_round_def)
    moreover have "?R = 0"
      using round_half_even_of_int [of 0] by (simp add: v True dec_val_def)
    ultimately show ?thesis using add mul by simp
  next
    case False
    from small have "\<bar>c\<bar> < 10 ^ 28" by (simp add: v)
    from dec_truediv_100 [OF False this, of e] obtain cq eq where
      q: "dec_truediv (Dec c e) (Dec 100 0) = Inr (Dec cq eq)"
      and le: "e - 2 \<le> eq" and scaled: "c = cq * 10 ^ nat (eq - (e - 2))" and nz: "cq \<noteq> 0"
      by blast
    have val: "dec_val (Dec cq eq) = dec_val v / 100"
      unfolding v by (rule dec_val_scaled [OF scaled le])
    have "\<bar>dec_val (Dec cq eq)\<bar> < 10 ^ 19"
      using bound by (simp add: val)
    from adjusted_bound [OF nz this] have adj: "int (ndigits \<bar>cq\<bar>) + eq \<le> 19" by simp
    have resc: "dec_rescale (Dec cq eq) (- 8) = Dec ?R (- 8)"
      by (simp only: dec_rescale_8 val)
    have "\<bar>?R\<bar> < 10 ^ 28" using R by simp
    then have "ndigits \<bar>?R\<bar> \<le> 28" by (intro ndigits_le) simp_all
    with adj nz have "dec_round (Dec cq eq) 8 = Inr (Dec ?R (- 8))"
      by (simp add: dec_round_def Let_def prec_def resc)
    with q add mul show ?thesis by (simp add: v)
  qed
qed

text \<open>
  The formatter of the Selic writer on a value of at most 28 significant digits
  and of magnitude below \<open>10 ^ 21\<close>: no operation rounds but \<^verbatim>\<open>round\<close>, and the
  daily value is the exact \<open>1 + round(value / 100, 8)\<close> at exponent \<open>- 8\<close>.  The
  formatter of the CDI writer is the same function.
\<close>

lemma spec_daily_value_dec:
  "dec_val (Dec (100000000 + round_half_even (dec_val v / 100 * 10 ^ 8)) (- 8))
     = spec_daily_value v"
  by (simp add: dec_val_def spec_daily_value_def add_divide_distrib)

lemma selic_format_record_exact:
  assumes "\<bar>coefficient (value record)\<bar> < 10 ^ 28" and "\<bar>dec_val (value record)\<bar> < 10 ^ 21"
  shows "SelicWriter_format_record record =
     Inr [VDate (date record), VDec (value record),
          VDec (Dec (100000000 + round_half_even (dec_val (value record) / 100 * 10 ^ 8)) (- 8))]"
proof -
  from daily_value_exact [OF assms] obtain q where
    "dec_truediv (dec_mul (value record) (Dec 1 0)) (Dec 100 0) = Inr q"
    "dec_round q 8 = Inr (Dec (round_half_even (dec_val (value record) / 100 * 10 ^ 8)) (- 8))"
    "dec_add (Dec 1 0) (Dec (round_half_even (dec_val (value record) / 100 * 10 ^ 8)) (- 8))
         = Dec (100000000 + round_half_even (dec_val (value record) / 100 * 10 ^ 8)) (- 8)"
    by blast
  then show ?thesis by (simp only: SelicWriter_format_record_def sum.case Let_def)
qed

lemma cdi_format_record_selic: "CdiWriter_format_record = SelicWriter_format_record"
  by (rule ext) (simp add: SelicWriter_format_record_def CdiWriter_format_record_def)

lemma write_rows_selic_cdi:
  "write_rows SelicWriter ws row records = write_rows CdiWriter ws row records"
  by (induction records arbitrary: ws row)
     (simp_all add: cdi_format_record_selic split: sum.splits)


subsection \<open>The daily value of the Selic and CDI formatters\<close>

text \<open>
  Claim C3 says that for every decimal value the daily value is
  \<open>1 + round(value / 100, 8)\<close> with the one rounding, half to even, of the exact
  quotient.  The arithmetic runs in a context of 28 significant digits: a value
  of 29 digits is rounded by the multiplication by 1 before it is divided.
  For \<open>0.0000014999999999999999999999999999\<close> the product is
  \<open>0.000001500000000000000000000000000\<close>, the quotient \<open>0.000000015\<close> is a tie, and
  the daily value is \<open>1.00000002\<close>, where the exact law gives \<open>1.00000001\<close>.
\<close>

theorem daily_value_double_rounding_counterexample:
  "format_record SelicWriter long_value_record
     = Inr [VDate (Date 2024 1 2), VDec (Dec 14999999999999999999999999999 (- 34)),
            VDec (Dec 100000002 (- 8))]
   \<and> format_record CdiWriter long_value_record
     = Inr [VDate (Date 2024 1 2), VDec (Dec 14999999999999999999999999999 (- 34)),
            VDec (Dec 100000002 (- 8))]
   \<and> spec_daily_value (Dec 14999999999999999999999999999 (- 34)) = 100000001 / 100000000"
  by code_simp


text \<open>
  Claim C3, amended.  For every Selic or CDI record whose value has at most 28
  significant digits and a magnitude below \<open>10 ^ 21\<close>, the formatted row is the
  date, the value, and the decimal of exponent \<open>- 8\<close> whose coefficient is
  \<open>10 ^ 8\<close> plus the exact quotient \<open>value / 100\<close> scaled by \<open>10 ^ 8\<close> and rounded half
  to even: the number \<open>1 + round(value / 100, 8)\<close> of the specification.  For
  \<open>0.065\<close> it is \<open>1.00065000\<close>.
\<close>

theorem daily_value_law:
  assumes "\<bar>coefficient (value record)\<bar> < 10 ^ 28" and "\<bar>dec_val (value record)\<bar> < 10 ^ 21"
  shows "format_record SelicWriter record =
           Inr [VDate (date record), VDec (value record),
                VDec (Dec (100000000
                           + round_half_even (dec_val (value record) / 100 * 10 ^ 8)) (- 8))]
       \<and> format_record CdiWriter record =
           Inr [VDate (date record), VDec (value record),
                VDec (Dec (100000000
                           + round_half_even (dec_val (value record) / 100 * 10 ^ 8)) (- 8))]
       \<and> dec_val (Dec (100000000
                       + round_half_even (dec_val (value record) / 100 * 10 ^ 8)) (- 8))
           = spec_daily_value (value record)"
proof (intro conjI)
  note exact = selic_format_record_exact [OF assms]
  show "format_record SelicWriter record =
           Inr [VDate (date record), VDec (value record),
                VDec (Dec (100000000
                           + round_half_even (dec_val (value record) / 100 * 10 ^ 8)) (- 8))]"
    using exact by (simp only: format_record.simps)
  show "format_record CdiWriter record =
           Inr [VDate (date record), VDec (value record),
                VDec (Dec (100000000
                           + round_half_even (dec_val (value record) / 100 * 10 ^ 8)) (- 8))]"
    using exact by (simp only: format_record.simps cdi_format_record_selic)
  show "dec_val (Dec (100000000
                       + round_half_even (dec_val (value record) / 100 * 10 ^ 8)) (- 8))
           = spec_daily_value (value record)"
    by (rule spec_daily_value_dec)
qed

theorem daily_value_law_witness:
  "format_record SelicWriter example_record
     = Inr [VDate (Date 2024 1 2), VDec (Dec 65 (- 3)), VDec (Dec 100065000 (- 8))]
   \<and> format_record CdiWriter example_record
     = Inr [VDate (Date 2024 1 2), VDec (Dec 65 (- 3)), VDec (Dec 100065000 (- 8))]
   \<and> spec_daily_value (Dec 65 (- 3)) = 100065 / 100000
   \<and> dec_val (Dec 100065000 (- 8)) = 100065 / 100000"
proof -
  have small: "\<bar>coefficient (value example_record)\<bar> < 10 ^ 28"
    by (simp add: example_record_def)
  have bound: "\<bar>dec_val (value example_record)\<bar> < 10 ^ 21"
    by (simp add: example_record_def dec_val_def)
  have rounded: "round_half_even (dec_val (value example_record) / 100 * 10 ^ 8) = 65000"
    by (simp add: example_record_def dec_val_def round_half_even_def)
  have spec: "spec_daily_value (Dec 65 (- 3)) = 100065 / 100000"
    by (simp add: spec_daily_value_def dec_val_def round_half_even_def)
  have val: "dec_val (Dec 100065000 (- 8)) = 100065 / 100000"
    by (simp add: dec_val_def)
  from daily_value_law [OF small bound]
  have "format_record SelicWriter example_record
     = Inr [VDate (date example_record), VDec (value example_record),
            VDec (Dec (100000000 + 65000) (- 8))]"
    and "format_record CdiWriter example_record
     = Inr [VDate (date example_record), VDec (value example_record),
            VDec (Dec (100000000 + 65000) (- 8))]"
    unfolding rounded by blast+
  then have "format_record SelicWriter example_record
     = Inr [VDate (Date 2024 1 2), VDec (Dec 65 (- 3)), VDec (Dec 100065000 (- 8))]"
    and "format_record CdiWriter example_record
     = Inr [VDate (Date 2024 1 2), VDec (Dec 65 (- 3)), VDec (Dec 100065000 (- 8))]"
    by (simp_all add: example_record_def)
  with spec val show ?thesis by blast
qed


subsection \<open>The Selic and CDI formatters\<close>

text \<open>
  Claim C10 says that both writers format every record as
  \<open>(date, value, 1 + round(value / 100, 8))\<close>.  On a value of magnitude \<open>10 ^ 30\<close>
  the quotient \<open>10 ^ 28\<close> cannot be held at eight fractional digits within 28
  significant digits: \<^verbatim>\<open>round\<close> raises InvalidOperation in both writers and
  neither produces a row.
\<close>

theorem formatters_invalid_operation_counterexample:
  "format_record SelicWriter huge_value_record = Inl InvalidOperation
   \<and> format_record CdiWriter huge_value_record = Inl InvalidOperation"
  by code_simp



text \<open>
  Claim C10, amended.  The Selic and CDI writers are extensionally equal: both
  have the headers \<open>(date, value, daily_value)\<close>, both format every record to the
  same result, a row or the same exception, both locate the first row alike,
  and so writing the same records to the same sheet gives the same cells or
  the same failure.  On a value of at most 28 significant digits and of
  magnitude below \<open>10 ^ 21\<close> that common row is \<open>(date, value, daily_value)\<close> with
  \<open>daily_value\<close> of exponent \<open>- 8\<close> and equal to the specification's
  \<open>1 + round(value / 100, 8)\<close>.  The registry tells the two apart by code
  (11, 12), sheet name and tab colour.
\<close>

theorem selic_cdi_formatters_equal:
  "get_headers SelicWriter = [''date'', ''value'', ''daily_value'']
   \<and> get_headers CdiWriter = [''date'', ''value'', ''daily_value'']
   \<and> format_record SelicWriter record = format_record CdiWriter record
   \<and> (\<bar>coefficient (value record)\<bar> < 10 ^ 28 \<and> \<bar>dec_val (value record)\<bar> < 10 ^ 21 \<longrightarrow>
        (\<exists>daily_value.
           format_record SelicWriter record
             = Inr [VDate (date record), VDec (value record), VDec daily_value]
         \<and> format_record CdiWriter record
             = Inr [VDate (date record), VDec (value record), VDec daily_value]
         \<and> exponent daily_value = - 8
         \<and> dec_val daily_value = spec_daily_value (value record)))
   \<and> get_first_row SelicWriter ws first_date = get_first_row CdiWriter ws first_date
   \<and> write_records SelicWriter ws records = write_records CdiWriter ws records
   \<and> map_option writer (worksheet_properties 11) = Some (Writer SelicWriter)
   \<and> map_option writer (worksheet_properties 12) = Some (Writer CdiWriter)
   \<and> map_option name (worksheet_properties 11) = Some ''selic''
   \<and> map_option name (worksheet_properties 12) = Some ''cdi''
   \<and> map_option color (worksheet_properties 11) = Some ''0000FF''
   \<and> map_option color (worksheet_properties 12) = Some ''00FF00''"
proof -
  have headers: "get_headers SelicWriter = [''date'', ''value'', ''daily_value'']"
    "get_headers CdiWriter = [''date'', ''value'', ''daily_value'']"
    by (simp_all add: SelicWriter_get_headers_def CdiWriter_get_headers_def
        WorksheetWriter_get_headers_def)
  have fmt: "format_record SelicWriter record = format_record CdiWriter record"
    by (simp add: cdi_format_record_selic)
  have law: "\<bar>coefficient (value record)\<bar> < 10 ^ 28 \<and> \<bar>dec_val (value record)\<bar> < 10 ^ 21 \<longrightarrow>
        (\<exists>daily_value.
           format_record SelicWriter record
             = Inr [VDate (date record), VDec (value record), VDec daily_value]
         \<and> format_record CdiWriter record
             = Inr [VDate (date record), VDec (value record), VDec daily_value]
         \<and> exponent daily_value = - 8
         \<and> dec_val daily_value = spec_daily_value (value record))"
  proof
    assume "\<bar>coefficient (value record)\<bar> < 10 ^ 28 \<and> \<bar>dec_val (value record)\<bar> < 10 ^ 21"
    then have exact: "SelicWriter_format_record record =
       Inr [VDate (date record), VDec (value record),
            VDec (Dec (100000000 + round_half_even (dec_val (value record) / 100 * 10 ^ 8)) (- 8))]"
      by (intro selic_format_record_exact) simp_all
    show "\<exists>daily_value.
           format_record SelicWriter record
             = Inr [VDate (date record), VDec (value record), VDec daily_value]
         \<and> format_record CdiWriter record
             = Inr [VDate (date record), VDec (value record), VDec daily_value]
         \<and> exponent daily_value = - 8
         \<and> dec_val daily_value = spec_daily_value (value record)"
    proof (intro exI conjI)
      show "format_record SelicWriter record
             = Inr [VDate (date record), VDec (value record),
                    VDec (Dec (100000000
                      + round_half_even (dec_val (value record) / 100 * 10 ^ 8)) (- 8))]"
        using exact by (simp only: format_record.simps)
      show "format_record CdiWriter record
             = Inr [VDate (date record), VDec (value record),
                    VDec (Dec (100000000
                      + round_half_even (dec_val (value record) / 100 * 10 ^ 8)) (- 8))]"
        using exact by (simp only: format_record.simps cdi_format_record_selic)
      show "exponent (Dec (100000000
                      + round_half_even (dec_val (value record) / 100 * 10 ^ 8)) (- 8)) = - 8"
        by (simp only: decimal.sel)
      show "dec_val (Dec (100000000
                      + round_half_even (dec_val (value record) / 100 * 10 ^ 8)) (- 8))
             = spec_daily_value (value record)"
        by (rule spec_daily_value_dec)
    qed
  qed
  have loc: "get_first_row SelicWriter ws first_date = get_first_row CdiWriter ws first_date"
    by simp
  have hd: "write_headers SelicWriter ws = write_headers CdiWriter ws"
    by (simp add: write_headers_def SelicWriter_get_headers_def CdiWriter_get_headers_def)
  have wr: "write_records SelicWriter ws records = write_records CdiWriter ws records"
    unfolding write_records_def hd write_rows_selic_cdi get_first_row.simps ..
  have reg: "map_option writer (worksheet_properties 11) = Some (Writer SelicWriter)"
    "map_option writer (worksheet_properties 12) = Some (Writer CdiWriter)"
    "map_option name (worksheet_properties 11) = Some ''selic''"
    "map_option name (worksheet_properties 12) = Some ''cdi''"
    "map_option color (worksheet_properties 11) = Some ''0000FF''"
    "map_option color (worksheet_properties 12) = Some ''00FF00''"
    by (simp_all add: worksheet_properties_def)
  from headers fmt law loc wr reg show ?thesis by blast
qed

theorem selic_cdi_formatters_equal_witness:
  "format_record SelicWriter scenario_record
     = Inr [VDate (Date 2024 1 2), VDec (Dec 5 (- 2)), VDec (Dec 100050000 (- 8))]
   \<and> format_record CdiWriter scenario_record
     = Inr [VDate (Date 2024 1 2), VDec (Dec 5 (- 2)), VDec (Dec 100050000 (- 8))]
   \<and> spec_daily_value (Dec 5 (- 2)) = 10005 / 10000
   \<and> write_records SelicWriter new_sheet [scenario_record]
       = write_records CdiWriter new_sheet [scenario_record]"
proof -
  have hyp: "\<bar>coefficient (value scenario_record)\<bar> < 10 ^ 28
      \<and> \<bar>dec_val (value scenario_record)\<bar> < 10 ^ 21"
    by (simp add: scenario_record_def dec_val_def)
  have spec: "spec_daily_value (Dec 5 (- 2)) = 10005 / 10000"
    by (simp add: spec_daily_value_def dec_val_def round_half_even_def)
  note main = selic_cdi_formatters_equal
    [of scenario_record new_sheet "Date 2024 1 2" "[scenario_record]"]
  from main hyp obtain daily_value where
    selic: "format_record SelicWriter scenario_record
       = Inr [VDate (date scenario_record), VDec (value scenario_record), VDec daily_value]"
    and cdi: "format_record CdiWriter scenario_record
       = Inr [VDate (date scenario_record), VDec (value scenario_record), VDec daily_value]"
    and e: "exponent daily_value = - 8"
    and v: "dec_val daily_value = spec_daily_value (value scenario_record)"
    by blast
  from main have wr: "write_records SelicWriter new_sheet [scenario_record]
       = write_records CdiWriter new_sheet [scenario_record]"
    by blast
  obtain c where dv: "daily_value = Dec c (- 8)"
    using e by (cases daily_value) simp
  from v have "of_int c / 100000000 = (10005 / 10000 :: rat)"
    by (simp add: dv dec_val_def scenario_record_def spec)
  then have "(of_int c :: rat) = of_int 100050000" by simp
  then have "c = 100050000" by (simp only: of_int_eq_iff)
  with selic cdi wr spec show ?thesis by (simp add: dv scenario_record_def)
qed

end
